theory Spec2Isabelle
  imports Main "HOL-Library.Word"
begin

section \<open>Byte arrays and the subset check (src/utils.ts)\<close>

text \<open>
  A \<^verbatim>\<open>Uint8Array\<close> is a list of 8-bit words. Two different array objects with the same
  contents are the same list here; \<^verbatim>\<open>isSubset\<close> never compares arrays by reference.
\<close>

type_synonym bytes = "8 word list"

text \<open>
  The \<^verbatim>\<open>for\<close> loop of the callback given to \<^verbatim>\<open>find\<close>:
  \<^verbatim>\<open>for (let index = 0; index < byteArray.length; index++) {
    if (otherByteArray[index] !== byteArray[index]) { return false } }
  return true\<close>
  It is entered only when both lengths agree, so every read is in range.
\<close>

function sameBytesFrom :: "nat \<Rightarrow> bytes \<Rightarrow> bytes \<Rightarrow> bool" where
  "sameBytesFrom index byteArray otherByteArray =
     (if index < length byteArray
      then (if otherByteArray ! index \<noteq> byteArray ! index then False
            else sameBytesFrom (Suc index) byteArray otherByteArray)
      else True)"
  by pat_completeness auto
termination
  by (relation "measure (\<lambda>(index, byteArray, otherByteArray). length byteArray - index)") auto

declare sameBytesFrom.simps [simp del]

text \<open>The whole callback: the length test first, then the loop.\<close>

definition sameBytes :: "bytes \<Rightarrow> bytes \<Rightarrow> bool" where
  "sameBytes byteArray otherByteArray =
     (if length byteArray \<noteq> length otherByteArray then False
      else sameBytesFrom 0 byteArray otherByteArray)"

text \<open>
  \<^verbatim>\<open>Boolean(set.find(...))\<close>: \<^verbatim>\<open>find\<close> gives the first array the callback accepts or
  \<^verbatim>\<open>undefined\<close>; an array object is truthy (also the empty one), \<^verbatim>\<open>undefined\<close> is not.
\<close>

definition foundIn :: "bytes list \<Rightarrow> bytes \<Rightarrow> bool" where
  "foundIn set' byteArray = (find (sameBytes byteArray) set' \<noteq> None)"

definition isSubset :: "bytes list \<Rightarrow> bytes list \<Rightarrow> bool" where
  "isSubset set' maybeSubset =
     (let intersection = filter (foundIn set') maybeSubset
      in length intersection = length maybeSubset)"

section \<open>Parsing the dialed multiaddr (parseMultiaddr)\<close>

text \<open>
  \<^verbatim>\<open>ma.stringTuples()\<close> gives the components of the address in order, each a protocol code
  and an optional value. The codes \<^verbatim>\<open>protocols('ip4').code\<close>, ... come from the protocol table
  of the multiaddr package, which is outside this repository; its values are the multicodec
  numbers (the listener of this repository repeats one of them: \<^verbatim>\<open>CODE_P2P = 421\<close>).
\<close>

definition code_ip4 :: nat where "code_ip4 = 4"
definition code_ip6 :: nat where "code_ip6 = 41"
definition code_dns4 :: nat where "code_dns4 = 54"
definition code_dns6 :: nat where "code_dns6 = 55"
definition code_udp :: nat where "code_udp = 273"
definition code_p2p :: nat where "code_p2p = 421"
definition code_quic :: nat where "code_quic = 460"
definition code_webtransport :: nat where "code_webtransport = 465"
definition code_certhash :: nat where "code_certhash = 466"

type_synonym part = "nat \<times> string option"

text \<open>A \<^verbatim>\<open>MultihashDigest\<close>: the hash code, the digest and the whole encoded multihash.\<close>

record multihash =
  mh_code :: nat
  mh_digest :: bytes
  mh_bytes :: bytes

text \<open>Every \<^verbatim>\<open>throw\<close> and every rejection of the transport, the listener and the muxer.\<close>

datatype error =
    HostAfterHostOrPort       \<comment> \<open>Invalid multiaddr, saw host and already saw the host or port\<close>
  | TransportBeforeHostPort   \<comment> \<open>Invalid multiaddr, Didn't see host and port, but saw quic/webtransport\<close>
  | PortAfterPort             \<comment> \<open>Invalid multiaddr, saw port but already saw the port\<close>
  | CerthashBeforeHostPort    \<comment> \<open>Invalid multiaddr, saw the certhash before seeing the host and port\<close>
  | UnexpectedComponent nat   \<comment> \<open>unexpected component in multiaddr\<close>
  | CerthashDecodeFailed      \<comment> \<open>thrown inside \<^verbatim>\<open>decodeCerthashStr\<close>\<close>
  | PeerIdDecodeFailed        \<comment> \<open>thrown inside \<^verbatim>\<open>peerIdFromString\<close>\<close>
  | NeedLocalPeerId           \<comment> \<open>Need a local peerid\<close>
  | SessionNotReady           \<comment> \<open>\<^verbatim>\<open>wt.ready\<close> rejected\<close>
  | CreateStreamFailed        \<comment> \<open>\<^verbatim>\<open>createBidirectionalStream()\<close> rejected\<close>
  | WriterNotReady            \<comment> \<open>\<^verbatim>\<open>writer.ready\<close> rejected\<close>
  | HandshakeFailed           \<comment> \<open>the noise handshake rejected\<close>
  | CerthashesNotSubset       \<comment> \<open>Our certhashes are not a subset of the remote's reported certhashes\<close>
  | FailedToAuthenticate      \<comment> \<open>Failed to authenticate webtransport\<close>
  | AbortError
  | UpgradeFailed             \<comment> \<open>the upgrader rejected\<close>
  | CertificateRequired       \<comment> \<open>WebTransport certificate is required\<close>
  | SinkAlreadyCalled         \<comment> \<open>sink already called on stream\<close>
  | SourceFailed              \<comment> \<open>the source given to a sink threw\<close>
  | WriteFailed               \<comment> \<open>\<^verbatim>\<open>writer.write\<close> rejected\<close>

text \<open>The accumulator of the \<^verbatim>\<open>reduce\<close>.\<close>

record 'p parse_state =
  url :: string
  certhashes :: "multihash list"
  seenHost :: bool
  seenPort :: bool
  remotePeer :: "'p option"

text \<open>\<^verbatim>\<open>value ?? ''\<close>\<close>

definition orEmpty :: "string option \<Rightarrow> string" where
  "orEmpty value = (case value of None \<Rightarrow> [] | Some v \<Rightarrow> v)"

text \<open>
  The callback of the \<^verbatim>\<open>reduce\<close>, one \<^verbatim>\<open>switch\<close> on the protocol code, in the order of its
  cases. \<^verbatim>\<open>decodeCerthashStr\<close> (multibase and multihash decoding) and \<^verbatim>\<open>peerIdFromString\<close>
  belong to other packages and may throw: they are parameters that return \<open>None\<close> when they
  throw.
\<close>

definition parseStep ::
  "(string \<Rightarrow> multihash option) \<Rightarrow> (string \<Rightarrow> 'p option) \<Rightarrow>
   'p parse_state \<Rightarrow> part \<Rightarrow> error + 'p parse_state" where
  "parseStep decodeCerthashStr peerIdFromString state part =
     (case part of (proto, value) \<Rightarrow>
        if proto = code_ip4 \<or> proto = code_ip6 \<or> proto = code_dns4 \<or> proto = code_dns6 then
          (if seenHost state \<or> seenPort state then Inl HostAfterHostOrPort
           else Inr (state\<lparr>url := url state @ orEmpty value, seenHost := True\<rparr>))
        else if proto = code_quic \<or> proto = code_webtransport then
          (if \<not> seenHost state \<or> \<not> seenPort state then Inl TransportBeforeHostPort
           else Inr state)
        else if proto = code_udp then
          (if seenPort state then Inl PortAfterPort
           else Inr (state\<lparr>url := url state @ '':'' @ orEmpty value, seenPort := True\<rparr>))
        else if proto = code_certhash then
          (if \<not> seenHost state \<or> \<not> seenPort state then Inl CerthashBeforeHostPort
           else (case decodeCerthashStr (orEmpty value) of
                   None \<Rightarrow> Inl CerthashDecodeFailed
                 | Some d \<Rightarrow> Inr (state\<lparr>certhashes := certhashes state @ [d]\<rparr>)))
        else if proto = code_p2p then
          (case peerIdFromString (orEmpty value) of
             None \<Rightarrow> Inl PeerIdDecodeFailed
           | Some p \<Rightarrow> Inr (state\<lparr>remotePeer := Some p\<rparr>))
        else Inl (UnexpectedComponent proto))"

text \<open>\<^verbatim>\<open>Array.prototype.reduce\<close> with a callback that may throw: the first throw ends it.\<close>

fun reduceE :: "('s \<Rightarrow> 'a \<Rightarrow> error + 's) \<Rightarrow> 's \<Rightarrow> 'a list \<Rightarrow> error + 's" where
  "reduceE f s [] = Inr s"
| "reduceE f s (x # xs) = (case f s x of Inl e \<Rightarrow> Inl e | Inr s' \<Rightarrow> reduceE f s' xs)"

record 'p parsed =
  p_url :: string
  p_certhashes :: "multihash list"
  p_remotePeer :: "'p option"

definition initialParseState :: "'p parse_state" where
  "initialParseState =
     \<lparr>url = ''https://'', certhashes = [], seenHost = False, seenPort = False, remotePeer = None\<rparr>"

definition parseMultiaddr ::
  "(string \<Rightarrow> multihash option) \<Rightarrow> (string \<Rightarrow> 'p option) \<Rightarrow> part list \<Rightarrow> error + 'p parsed" where
  "parseMultiaddr decodeCerthashStr peerIdFromString parts =
     (case reduceE (parseStep decodeCerthashStr peerIdFromString) initialParseState parts of
        Inl e \<Rightarrow> Inl e
      | Inr state \<Rightarrow>
          Inr \<lparr>p_url = url state, p_certhashes = certhashes state, p_remotePeer = remotePeer state\<rparr>)"

subsection \<open>What an address must look like, in words of its components\<close>

definition isHost :: "nat \<Rightarrow> bool" where
  "isHost proto \<longleftrightarrow> proto = code_ip4 \<or> proto = code_ip6 \<or> proto = code_dns4 \<or> proto = code_dns6"

definition isMarker :: "nat \<Rightarrow> bool" where
  "isMarker proto \<longleftrightarrow> proto = code_quic \<or> proto = code_webtransport"

definition recognised :: "nat \<Rightarrow> bool" where
  "recognised proto \<longleftrightarrow>
     isHost proto \<or> proto = code_udp \<or> isMarker proto \<or> proto = code_certhash \<or> proto = code_p2p"

definition hostSeen :: "part list \<Rightarrow> bool" where
  "hostSeen before = list_ex (\<lambda>x. isHost (fst x)) before"

definition portSeen :: "part list \<Rightarrow> bool" where
  "portSeen before = list_ex (\<lambda>x. fst x = code_udp) before"

text \<open>
  \<open>anyAt P before parts\<close>: some component \<open>x\<close> of \<open>parts\<close> satisfies \<open>P x b\<close>, where \<open>b\<close> is
  \<open>before\<close> followed by the components of \<open>parts\<close> in front of \<open>x\<close>.
\<close>

fun anyAt :: "('a \<Rightarrow> 'a list \<Rightarrow> bool) \<Rightarrow> 'a list \<Rightarrow> 'a list \<Rightarrow> bool" where
  "anyAt P before [] = False"
| "anyAt P before (x # xs) = (P x before \<or> anyAt P (before @ [x]) xs)"

text \<open>
  The three rejections the specification lists: a fingerprint or transport marker before
  both a host and a port, a second port, a component outside the recognised set.
\<close>

definition earlyFingerprintOrMarker :: "part list \<Rightarrow> bool" where
  "earlyFingerprintOrMarker parts =
     anyAt (\<lambda>x before. (fst x = code_certhash \<or> isMarker (fst x))
                          \<and> \<not> (hostSeen before \<and> portSeen before)) [] parts"

definition portRepeated :: "part list \<Rightarrow> bool" where
  "portRepeated parts = anyAt (\<lambda>x before. fst x = code_udp \<and> portSeen before) [] parts"

definition unrecognisedComponent :: "part list \<Rightarrow> bool" where
  "unrecognisedComponent parts = list_ex (\<lambda>x. \<not> recognised (fst x)) parts"

definition listedRejection :: "part list \<Rightarrow> bool" where
  "listedRejection parts \<longleftrightarrow>
     earlyFingerprintOrMarker parts \<or> portRepeated parts \<or> unrecognisedComponent parts"

text \<open>The rejections of the code that the list leaves out.\<close>

definition hostAfterHostOrPort :: "part list \<Rightarrow> bool" where
  "hostAfterHostOrPort parts =
     anyAt (\<lambda>x before. isHost (fst x) \<and> (hostSeen before \<or> portSeen before)) [] parts"

definition undecodable ::
  "(string \<Rightarrow> multihash option) \<Rightarrow> (string \<Rightarrow> 'p option) \<Rightarrow> part list \<Rightarrow> bool" where
  "undecodable decodeCerthashStr peerIdFromString parts =
     list_ex (\<lambda>x. fst x = code_certhash \<and> decodeCerthashStr (orEmpty (snd x)) = None
                 \<or> fst x = code_p2p \<and> peerIdFromString (orEmpty (snd x)) = None) parts"

text \<open>The result of a successful parse, read off the components.\<close>

definition urlPiece :: "part \<Rightarrow> string" where
  "urlPiece x = (if isHost (fst x) then orEmpty (snd x)
                 else if fst x = code_udp then '':'' @ orEmpty (snd x) else [])"

definition urlOf :: "part list \<Rightarrow> string" where
  "urlOf parts = ''https://'' @ concat (map urlPiece parts)"

definition certhashesOf :: "(string \<Rightarrow> multihash option) \<Rightarrow> part list \<Rightarrow> multihash list" where
  "certhashesOf decodeCerthashStr parts =
     List.map_filter (\<lambda>x. if fst x = code_certhash then decodeCerthashStr (orEmpty (snd x)) else None)
       parts"

definition remotePeerOf :: "(string \<Rightarrow> 'p option) \<Rightarrow> part list \<Rightarrow> 'p option" where
  "remotePeerOf peerIdFromString parts =
     (case filter (\<lambda>x. fst x = code_p2p) parts of
        [] \<Rightarrow> None
      | ps \<Rightarrow> peerIdFromString (orEmpty (snd (last ps))))"


text \<open>
  When the callback throws at a component, given the components before it; and what the
  accumulator holds after a run of components without a throw.
\<close>

definition violation ::
  "(string \<Rightarrow> multihash option) \<Rightarrow> (string \<Rightarrow> 'p option) \<Rightarrow> part \<Rightarrow> part list \<Rightarrow> bool" where
  "violation decodeCerthashStr peerIdFromString x before \<longleftrightarrow>
     (fst x = code_certhash \<or> isMarker (fst x)) \<and> \<not> (hostSeen before \<and> portSeen before)
   \<or> fst x = code_udp \<and> portSeen before
   \<or> \<not> recognised (fst x)
   \<or> isHost (fst x) \<and> (hostSeen before \<or> portSeen before)
   \<or> fst x = code_certhash \<and> decodeCerthashStr (orEmpty (snd x)) = None
   \<or> fst x = code_p2p \<and> peerIdFromString (orEmpty (snd x)) = None"

definition describes ::
  "(string \<Rightarrow> multihash option) \<Rightarrow> (string \<Rightarrow> 'p option) \<Rightarrow> part list \<Rightarrow> 'p parse_state \<Rightarrow> bool" where
  "describes decodeCerthashStr peerIdFromString parts st \<longleftrightarrow>
     url st = urlOf parts \<and> certhashes st = certhashesOf decodeCerthashStr parts
     \<and> seenHost st = hostSeen parts \<and> seenPort st = portSeen parts
     \<and> remotePeer st = remotePeerOf peerIdFromString parts"

section \<open>The transport: configuration, dialing, authentication\<close>

text \<open>
  What the code calls on the native session, on native streams and on the callbacks it was
  given, in the order of the calls. A callback written \<^verbatim>\<open>f?.(x)\<close> is recorded where the call
  stands, whether or not the caller supplied \<open>f\<close>.
\<close>

datatype event =
    NewWebTransport string "bytes list"  \<comment> \<open>\<^verbatim>\<open>new WebTransport(url, {serverCertificateHashes})\<close>\<close>
  | SessionClose                         \<comment> \<open>\<^verbatim>\<open>wt.close()\<close>, \<^verbatim>\<open>session.close()\<close>\<close>
  | SessionCloseWith nat                 \<comment> \<open>\<^verbatim>\<open>session.close({closeCode, reason})\<close>\<close>
  | AuthWriterClose                      \<comment> \<open>\<^verbatim>\<open>writer.close()\<close> of the authentication stream\<close>
  | AuthReaderCancel                     \<comment> \<open>\<^verbatim>\<open>reader.cancel()\<close> of the authentication stream\<close>
  | UpgradeOutbound int                  \<comment> \<open>\<^verbatim>\<open>upgrader.upgradeOutbound\<close>, with the muxer factory's ceiling\<close>
  | UpgradeInbound int                   \<comment> \<open>\<^verbatim>\<open>upgrader.upgradeInbound\<close>, with the muxer factory's ceiling\<close>
  | ConnectionTracked                    \<comment> \<open>\<^verbatim>\<open>this.connections.push(connection)\<close>\<close>
  | HandlerCalled                        \<comment> \<open>\<^verbatim>\<open>this.handler(connection)\<close>\<close>
  | ConnectionEvent                      \<comment> \<open>the \<^verbatim>\<open>connection\<close> event\<close>
  | WritableClose nat                    \<comment> \<open>\<^verbatim>\<open>wtStream.writable.close()\<close>\<close>
  | ReadableCancel nat                   \<comment> \<open>\<^verbatim>\<open>wtStream.readable.cancel()\<close>\<close>
  | WriterClose nat                      \<comment> \<open>\<^verbatim>\<open>writer.close()\<close> of a wrapped stream\<close>
  | WriterAbort nat                      \<comment> \<open>\<^verbatim>\<open>writer.abort()\<close>\<close>
  | ReaderCancel nat                     \<comment> \<open>\<^verbatim>\<open>reader.cancel()\<close> of a wrapped stream\<close>
  | WriterWrite nat bytes                \<comment> \<open>\<^verbatim>\<open>writer.write(buf)\<close>\<close>
  | OnStreamEnd nat                      \<comment> \<open>\<^verbatim>\<open>onStreamEnd?.(stream)\<close>\<close>
  | OnIncomingStream nat                 \<comment> \<open>\<^verbatim>\<open>init?.onIncomingStream?.(stream)\<close>\<close>

record certificate =
  privateKey :: string
  pem :: string
  hash :: multihash
  secret :: string

record WebTransportInit =
  init_maxInboundStreams :: "int option"
  init_certificates :: "certificate list option"

record WebTransportConfig =
  maxInboundStreams :: int
  certificates :: "certificate list option"

record 'p WebTransportTransport =
  peerId :: "'p option"
  config :: WebTransportConfig

text \<open>
  The constructor: \<^verbatim>\<open>{ ...init, maxInboundStreams: init.maxInboundStreams ?? 1000 }\<close>.
  A \<^verbatim>\<open>number\<close> that counts streams is an integer here.
\<close>

definition webTransport :: "WebTransportInit \<Rightarrow> 'p option \<Rightarrow> 'p WebTransportTransport" where
  "webTransport init components =
     \<lparr>peerId = components,
      config = \<lparr>maxInboundStreams = (case init_maxInboundStreams init of None \<Rightarrow> 1000 | Some n \<Rightarrow> n),
                certificates = init_certificates init\<rparr>\<rparr>"

text \<open>
  What the world outside does during one dial: whether \<^verbatim>\<open>wt.ready\<close> resolves, whether the
  authentication stream opens and its writer becomes ready, how the noise handshake ends
  (rejected, or done with \<^verbatim>\<open>remoteExtensions?.webtransportCerthashes\<close>, which may be
  undefined), whether \<^verbatim>\<open>options.signal?.aborted === true\<close>, whether the upgrader resolves.
\<close>

datatype handshake = HandshakeRejects | HandshakeDone "bytes list option"

record dial_env =
  sessionReady :: bool
  authStream :: bool
  authWriterReady :: bool
  secureOutbound :: handshake
  signalAborted :: bool
  upgradeOutboundOk :: bool

definition authenticateWebTransport ::
  "dial_env \<Rightarrow> multihash list \<Rightarrow> event list \<Rightarrow> (error + bool) \<times> event list" where
  "authenticateWebTransport env certhashes' tr =
     (if \<not> authStream env then (Inl CreateStreamFailed, tr)
      else if \<not> authWriterReady env then (Inl WriterNotReady, tr)
      else (case secureOutbound env of
              HandshakeRejects \<Rightarrow> (Inl HandshakeFailed, tr)
            | HandshakeDone webtransportCerthashes \<Rightarrow>
                (let tr1 = tr @ [AuthWriterClose, AuthReaderCancel]
                 in if \<not> isSubset (case webtransportCerthashes of None \<Rightarrow> [] | Some cs \<Rightarrow> cs)
                                    (map mh_bytes certhashes')
                    then (Inl CerthashesNotSubset, tr1)
                    else (Inr True, tr1))))"

text \<open>The upgraded connection is made by the upgrader, outside this repository.\<close>

datatype connection = Connection

text \<open>The \<^verbatim>\<open>try\<close> block of \<^verbatim>\<open>dial\<close>.\<close>

definition dialTry ::
  "'p WebTransportTransport \<Rightarrow> dial_env \<Rightarrow> 'p parsed \<Rightarrow> event list \<Rightarrow>
   (error + connection) \<times> event list" where
  "dialTry t env parsed' tr =
     (case authenticateWebTransport env (p_certhashes parsed') tr of
        (Inl err, tr1) \<Rightarrow> (Inl err, tr1)
      | (Inr authenticated, tr1) \<Rightarrow>
          if \<not> authenticated then (Inl FailedToAuthenticate, tr1)
          else if signalAborted env then (Inl AbortError, tr1 @ [SessionClose])
          else (let tr2 = tr1 @ [UpgradeOutbound (maxInboundStreams (config t))]
                in if upgradeOutboundOk env then (Inr Connection, tr2)
                   else (Inl UpgradeFailed, tr2)))"

text \<open>\<^verbatim>\<open>dial\<close>: the \<^verbatim>\<open>catch\<close> closes the session and throws the error again.\<close>

definition dial ::
  "'p WebTransportTransport \<Rightarrow> (string \<Rightarrow> multihash option) \<Rightarrow> (string \<Rightarrow> 'p option) \<Rightarrow>
   part list \<Rightarrow> dial_env \<Rightarrow> (error + connection) \<times> event list" where
  "dial t decodeCerthashStr peerIdFromString ma env =
     (case peerId t of
        None \<Rightarrow> (Inl NeedLocalPeerId, [])
      | Some localPeer \<Rightarrow>
          (case parseMultiaddr decodeCerthashStr peerIdFromString ma of
             Inl err \<Rightarrow> (Inl err, [])
           | Inr parsed' \<Rightarrow>
               (let tr = [NewWebTransport (p_url parsed' @ ''/.well-known/libp2p-webtransport?type=noise'')
                                          (map mh_digest (p_certhashes parsed'))]
                in if \<not> sessionReady env then (Inl SessionNotReady, tr)
                   else (case dialTry t env parsed' tr of
                           (Inl err, tr1) \<Rightarrow> (Inl err, tr1 @ [SessionClose])
                         | (Inr conn, tr1) \<Rightarrow> (Inr conn, tr1)))))"

subsection \<open>The listener (src/listener.ts) and the server (create-server)\<close>

record 'p WebTransportListener =
  l_certificates :: "certificate list"
  l_peerId :: "'p option"
  l_handler :: bool

text \<open>
  \<^verbatim>\<open>createListener\<close> of the transport hands over the caller's options, the certificates and
  the peer id; nothing else of the transport's configuration.
\<close>

definition createListener :: "'p WebTransportTransport \<Rightarrow> bool \<Rightarrow> error + 'p WebTransportListener" where
  "createListener t handler =
     (case certificates (config t) of
        None \<Rightarrow> Inl CertificateRequired
      | Some cs \<Rightarrow>
          if length cs = 0 then Inl CertificateRequired
          else Inr \<lparr>l_certificates = cs, l_peerId = peerId t, l_handler = handler\<rparr>)"

text \<open>The fingerprints the listener reports in its handshake extensions.\<close>

definition webtransportCerthashes :: "'p WebTransportListener \<Rightarrow> bytes list" where
  "webtransportCerthashes l = map (\<lambda>cert. mh_bytes (hash cert)) (l_certificates l)"

record session_env =
  firstStream :: bool         \<comment> \<open>the first \<^verbatim>\<open>bidiReader.read()\<close> is not \<^verbatim>\<open>done\<close>\<close>
  secureInbound :: bool       \<comment> \<open>the noise handshake resolves\<close>
  upgradeInboundOk :: bool    \<comment> \<open>the upgrader resolves\<close>

definition onSession ::
  "'p WebTransportListener \<Rightarrow> session_env \<Rightarrow> event list \<Rightarrow> (error + unit) \<times> event list" where
  "onSession l env tr =
     (if \<not> firstStream env then (Inr (), tr)
      else if \<not> secureInbound env then (Inl HandshakeFailed, tr)
      else (let tr1 = tr @ [UpgradeInbound 1000]
            in if upgradeInboundOk env
               then (Inr (), tr1 @ [AuthWriterClose, ConnectionTracked]
                                @ (if l_handler l then [HandlerCalled] else []) @ [ConnectionEvent])
               else (Inr (), tr1 @ [SessionCloseWith 500])))"

text \<open>
  The \<^verbatim>\<open>session\<close> handler installed by \<^verbatim>\<open>listen\<close>:
  \<^verbatim>\<open>this.onSession(session).catch(err => { session.close() })\<close>.
\<close>

definition sessionHandler :: "'p WebTransportListener \<Rightarrow> session_env \<Rightarrow> event list \<Rightarrow> event list" where
  "sessionHandler l env tr =
     (case onSession l env tr of
        (Inl err, tr1) \<Rightarrow> tr1 @ [SessionClose]
      | (Inr u, tr1) \<Rightarrow> tr1)"

record WebTransportServer =
  listening :: bool
  sessionTimeout :: nat

text \<open>The constructor of \<^verbatim>\<open>DefaultWebTransportServer\<close>; the timeout is in milliseconds.\<close>

definition createServer :: WebTransportServer where
  "createServer = \<lparr>listening = False, sessionTimeout = 1000\<rparr>"

text \<open>An accepting decoder for the examples: the digest of a string is its bytes.\<close>

definition plainDigest :: "string \<Rightarrow> multihash option" where
  "plainDigest s =
     Some \<lparr>mh_code = 18, mh_digest = map (\<lambda>c. of_nat (of_char c)) s,
           mh_bytes = 18 # of_nat (length s) # map (\<lambda>c. of_nat (of_char c)) s\<rparr>"

section \<open>The stream muxer (src/muxer.ts)\<close>

datatype direction = Inbound | Outbound

text \<open>
  The variables one call of \<^verbatim>\<open>webtransportBiDiStreamToStream\<close> closes over, and the
  \<^verbatim>\<open>stat\<close> of the stream object it returns. \<open>native\<close> names the native bidirectional stream
  whose writer and reader the stream holds.
\<close>

record stream =
  native :: nat
  direction :: direction
  writerClosed :: bool
  readerClosed :: bool
  sinkSunk :: bool
  timeline_open :: nat
  timeline_close :: "nat option"

text \<open>
  One muxer of one factory: the array \<^verbatim>\<open>activeStreams\<close>, the factory's
  \<^verbatim>\<open>streamIDCounter\<close>, the stream objects made so far, whether the loop that drains inbound
  streams has been started and has not ended, and the calls made so far.
  A stream object is known by the number its id was made from (\<^verbatim>\<open>String(streamIDCounter++)\<close>);
  the counter never gives a number twice, so this number stands for the identity of the
  object, and \<^verbatim>\<open>s === stream\<close> is equality of numbers.
\<close>

record world =
  activeStreams :: "nat list"
  streamIDCounter :: nat
  streams :: "nat \<Rightarrow> stream"
  loopRunning :: bool
  trace :: "event list"

definition emit :: "event \<Rightarrow> world \<Rightarrow> world" where
  "emit e w = w\<lparr>trace := trace w @ [e]\<rparr>"

definition setWriterClosed :: "nat \<Rightarrow> world \<Rightarrow> world" where
  "setWriterClosed stream' w = w\<lparr>streams := (streams w)(stream' := (streams w stream')\<lparr>writerClosed := True\<rparr>)\<rparr>"

definition setReaderClosed :: "nat \<Rightarrow> world \<Rightarrow> world" where
  "setReaderClosed stream' w = w\<lparr>streams := (streams w)(stream' := (streams w stream')\<lparr>readerClosed := True\<rparr>)\<rparr>"

definition setSinkSunk :: "nat \<Rightarrow> world \<Rightarrow> world" where
  "setSinkSunk stream' w = w\<lparr>streams := (streams w)(stream' := (streams w stream')\<lparr>sinkSunk := True\<rparr>)\<rparr>"

text \<open>\<^verbatim>\<open>findIndex\<close> gives the first index or \<^verbatim>\<open>-1\<close>; \<^verbatim>\<open>splice(index, 1)\<close> removes that one entry.\<close>

fun findIndex :: "('a \<Rightarrow> bool) \<Rightarrow> 'a list \<Rightarrow> nat option" where
  "findIndex P [] = None"
| "findIndex P (x # xs) = (if P x then Some 0 else map_option Suc (findIndex P xs))"

definition splice1 :: "nat \<Rightarrow> 'a list \<Rightarrow> 'a list" where
  "splice1 index xs = take index xs @ drop (Suc index) xs"

text \<open>\<open>now\<close> is what \<^verbatim>\<open>Date.now()\<close> returns during the call.\<close>

definition cleanupStreamFromActiveStreams :: "nat \<Rightarrow> nat \<Rightarrow> world \<Rightarrow> world" where
  "cleanupStreamFromActiveStreams stream' now w =
     (case findIndex (\<lambda>s. s = stream') (activeStreams w) of
        None \<Rightarrow> w
      | Some index \<Rightarrow>
          emit (OnStreamEnd stream')
            (w\<lparr>activeStreams := splice1 index (activeStreams w),
               streams := (streams w)(stream' := (streams w stream')\<lparr>timeline_close := Some now\<rparr>)\<rparr>))"

definition closeRead :: "nat \<Rightarrow> nat \<Rightarrow> world \<Rightarrow> world" where
  "closeRead stream' now w =
     (let w1 = (if \<not> readerClosed (streams w stream')
                then setReaderClosed stream' (emit (ReaderCancel (native (streams w stream'))) w)
                else w)
      in if writerClosed (streams w1 stream') then cleanupStreamFromActiveStreams stream' now w1
         else w1)"

definition closeWrite :: "nat \<Rightarrow> nat \<Rightarrow> world \<Rightarrow> world" where
  "closeWrite stream' now w =
     (let w1 = (if \<not> writerClosed (streams w stream')
                then emit (WriterClose (native (streams w stream'))) (setWriterClosed stream' w)
                else w)
      in if readerClosed (streams w1 stream') then cleanupStreamFromActiveStreams stream' now w1
         else w1)"

definition close :: "nat \<Rightarrow> nat \<Rightarrow> world \<Rightarrow> world" where
  "close stream' now w =
     cleanupStreamFromActiveStreams stream' now (closeWrite stream' now (closeRead stream' now w))"

definition abort :: "nat \<Rightarrow> nat \<Rightarrow> world \<Rightarrow> world" where
  "abort stream' now w =
     (let w1 = (if \<not> writerClosed (streams w stream')
                then setWriterClosed stream' (emit (WriterAbort (native (streams w stream'))) w)
                else w);
          w2 = closeRead stream' now w1;
          w3 = setReaderClosed stream' w2
      in cleanupStreamFromActiveStreams stream' now w3)"

definition reset :: "nat \<Rightarrow> nat \<Rightarrow> world \<Rightarrow> world" where
  "reset stream' now w = close stream' now w"

text \<open>
  The \<^verbatim>\<open>source\<close> generator when \<^verbatim>\<open>reader.read()\<close> reports \<^verbatim>\<open>done\<close>. A read that yields a chunk
  changes nothing here.
\<close>

definition sourceEnd :: "nat \<Rightarrow> nat \<Rightarrow> world \<Rightarrow> world" where
  "sourceEnd stream' now w =
     (let w1 = setReaderClosed stream' w
      in if writerClosed (streams w1 stream') then cleanupStreamFromActiveStreams stream' now w1
         else w1)"

text \<open>
  The two observers started when the stream is wrapped: they run when \<^verbatim>\<open>writer.closed\<close>,
  respectively \<^verbatim>\<open>reader.closed\<close>, settles (resolved or rejected).
\<close>

definition writerClosedSettled :: "nat \<Rightarrow> nat \<Rightarrow> world \<Rightarrow> world" where
  "writerClosedSettled stream' now w =
     (let w1 = setWriterClosed stream' w
      in if writerClosed (streams w1 stream') \<and> readerClosed (streams w1 stream')
         then cleanupStreamFromActiveStreams stream' now w1 else w1)"

definition readerClosedSettled :: "nat \<Rightarrow> nat \<Rightarrow> world \<Rightarrow> world" where
  "readerClosedSettled stream' now w =
     (let w1 = setReaderClosed stream' w
      in if writerClosed (streams w1 stream') \<and> readerClosed (streams w1 stream')
         then cleanupStreamFromActiveStreams stream' now w1 else w1)"

text \<open>
  The \<^verbatim>\<open>catch\<close> handlers of \<^verbatim>\<open>reader.cancel()\<close> and \<^verbatim>\<open>writer.close()\<close>, when the rejection
  mentions \<^verbatim>\<open>RESET_STREAM\<close>.
\<close>

definition cancelRejectedReset :: "nat \<Rightarrow> world \<Rightarrow> world" where
  "cancelRejectedReset stream' w = setWriterClosed stream' w"

definition closeRejectedReset :: "nat \<Rightarrow> world \<Rightarrow> world" where
  "closeRejectedReset stream' w = setReaderClosed stream' w"

subsection \<open>The sink\<close>

datatype chunk = Uint8Array bytes | Uint8ArrayList "bytes list"

text \<open>A source yields its chunks and then completes or throws.\<close>

record source =
  yields :: "chunk list"
  throws :: bool

text \<open>
  \<^verbatim>\<open>writer.write\<close> may reject. \<open>budget\<close> is how many further calls resolve before one rejects;
  \<open>None\<close> when none rejects. The inner loop \<^verbatim>\<open>for (const buf of chunks)\<close>:
\<close>

fun writeBufs :: "nat \<Rightarrow> bytes list \<Rightarrow> nat option \<Rightarrow> event list \<Rightarrow> bool \<times> nat option \<times> event list" where
  "writeBufs h [] budget tr = (True, budget, tr)"
| "writeBufs h (buf # bufs) None tr = writeBufs h bufs None (tr @ [WriterWrite h buf])"
| "writeBufs h (buf # bufs) (Some 0) tr = (False, Some 0, tr @ [WriterWrite h buf])"
| "writeBufs h (buf # bufs) (Some (Suc k)) tr = writeBufs h bufs (Some k) (tr @ [WriterWrite h buf])"

text \<open>
  The body of the loop \<^verbatim>\<open>for await (const chunks of source)\<close>: one write for a
  \<^verbatim>\<open>Uint8Array\<close>, one write for each buffer of a \<^verbatim>\<open>Uint8ArrayList\<close>.
\<close>

definition writeChunk :: "nat \<Rightarrow> chunk \<Rightarrow> nat option \<Rightarrow> event list \<Rightarrow> bool \<times> nat option \<times> event list" where
  "writeChunk h chunks budget tr =
     (case chunks of
        Uint8Array buf \<Rightarrow> writeBufs h [buf] budget tr
      | Uint8ArrayList bufs \<Rightarrow> writeBufs h bufs budget tr)"

text \<open>The loop itself; a rejected write ends it.\<close>

fun writeChunks :: "nat \<Rightarrow> chunk list \<Rightarrow> nat option \<Rightarrow> event list \<Rightarrow> bool \<times> nat option \<times> event list" where
  "writeChunks h [] budget tr = (True, budget, tr)"
| "writeChunks h (chunks # rest) budget tr =
     (case writeChunk h chunks budget tr of
        (written, budget', tr') \<Rightarrow>
          if written then writeChunks h rest budget' tr' else (False, budget', tr'))"

text \<open>The buffers of a chunk, in the order they are written.\<close>

definition chunkBufs :: "chunk \<Rightarrow> bytes list" where
  "chunkBufs chunks = (case chunks of Uint8Array buf \<Rightarrow> [buf] | Uint8ArrayList bufs \<Rightarrow> bufs)"

definition sink :: "nat \<Rightarrow> nat \<Rightarrow> source \<Rightarrow> nat option \<Rightarrow> world \<Rightarrow> (error + unit) \<times> world" where
  "sink stream' now source' budget w =
     (if sinkSunk (streams w stream') then (Inl SinkAlreadyCalled, w)
      else (let w1 = setSinkSunk stream' w in
            case writeChunks (native (streams w1 stream')) (yields source') budget (trace w1) of
              (written, budget', tr') \<Rightarrow>
                (if \<not> written then Inl WriteFailed
                 else if throws source' then Inl SourceFailed
                 else Inr (),
                 closeWrite stream' now (w1\<lparr>trace := tr'\<rparr>))))"

subsection \<open>The muxer factory\<close>

record StreamMuxerInit =
  init_direction :: "direction option"
  init_signal :: "bool option"    \<comment> \<open>\<^verbatim>\<open>signal?.aborted\<close>, when a signal was given\<close>

datatype muxer = Muxer

text \<open>\<^verbatim>\<open>webtransportMuxer(wt, reader, config)\<close>: \<^verbatim>\<open>let streamIDCounter = 0\<close>.\<close>

definition blankStream :: stream where
  "blankStream = \<lparr>native = 0, direction = Outbound, writerClosed = False, readerClosed = False,
                   sinkSunk = False, timeline_open = 0, timeline_close = None\<rparr>"

definition webtransportMuxer :: world where
  "webtransportMuxer =
     \<lparr>activeStreams = [], streamIDCounter = 0, streams = (\<lambda>i. blankStream),
      loopRunning = False, trace = []\<rparr>"

text \<open>\<^verbatim>\<open>init?.signal?.aborted === true\<close>\<close>

definition aborted :: "StreamMuxerInit option \<Rightarrow> bool" where
  "aborted init =
     (case init of None \<Rightarrow> False
      | Some i \<Rightarrow> (case init_signal i of None \<Rightarrow> False | Some a \<Rightarrow> a))"

text \<open>
  \<^verbatim>\<open>createStreamMuxer\<close>: a new empty \<^verbatim>\<open>activeStreams\<close>; the draining loop is handed to
  \<^verbatim>\<open>Promise.resolve().then(...)\<close>, so it is started and runs once the call is over; the muxer
  object is built; only then is the signal looked at.
\<close>

definition createStreamMuxer :: "StreamMuxerInit option \<Rightarrow> world \<Rightarrow> (error + muxer) \<times> world" where
  "createStreamMuxer init w =
     (let w1 = w\<lparr>activeStreams := [], loopRunning := True\<rparr>
      in if aborted init then (Inl AbortError, emit SessionClose w1)
         else (Inr Muxer, w1))"

text \<open>
  Wrapping a native stream: \<^verbatim>\<open>await writer.ready\<close> may reject (\<open>ready\<close> false), and then no
  stream object exists.
\<close>

definition webtransportBiDiStreamToStream :: "nat \<Rightarrow> bool \<Rightarrow> direction \<Rightarrow> nat \<Rightarrow> stream option" where
  "webtransportBiDiStreamToStream bidiStream ready direction' now =
     (if \<not> ready then None
      else Some \<lparr>native = bidiStream, direction = direction', writerClosed = False,
                 readerClosed = False, sinkSunk = False, timeline_open = now,
                 timeline_close = None\<rparr>)"

text \<open>What one \<^verbatim>\<open>reader.read()\<close> of the draining loop gives.\<close>

datatype read_result =
    ReadDone                 \<comment> \<open>\<^verbatim>\<open>done\<close>\<close>
  | ReadUndefined            \<comment> \<open>a value that is \<^verbatim>\<open>null\<close> or \<^verbatim>\<open>undefined\<close>\<close>
  | ReadRejected             \<comment> \<open>the read rejects\<close>
  | ReadStream nat bool      \<comment> \<open>a native stream, and whether its writer becomes ready\<close>

text \<open>
  One turn of the draining loop, for the result of its \<^verbatim>\<open>reader.read()\<close>. The loop ends on
  \<^verbatim>\<open>done\<close>, on an undefined value and on any rejection inside it.
\<close>

definition inboundRead :: "int \<Rightarrow> nat \<Rightarrow> read_result \<Rightarrow> world \<Rightarrow> world" where
  "inboundRead maxInbound now r w =
     (if \<not> loopRunning w then w
      else (case r of
              ReadDone \<Rightarrow> w\<lparr>loopRunning := False\<rparr>
            | ReadUndefined \<Rightarrow> w\<lparr>loopRunning := False\<rparr>
            | ReadRejected \<Rightarrow> w\<lparr>loopRunning := False\<rparr>
            | ReadStream wtStream ready \<Rightarrow>
                if int (length (activeStreams w)) \<ge> maxInbound
                then emit (ReadableCancel wtStream) (emit (WritableClose wtStream) w)
                else (let streamId = streamIDCounter w;
                          w1 = w\<lparr>streamIDCounter := streamId + 1\<rparr>
                      in case webtransportBiDiStreamToStream wtStream ready Inbound now of
                           None \<Rightarrow> w1\<lparr>loopRunning := False\<rparr>
                         | Some stream' \<Rightarrow>
                             emit (OnIncomingStream streamId)
                               (w1\<lparr>streams := (streams w1)(streamId := stream'),
                                   activeStreams := activeStreams w1 @ [streamId]\<rparr>))))"

text \<open>
  \<^verbatim>\<open>newStream\<close>: \<open>created\<close> is the native stream \<^verbatim>\<open>wt.createBidirectionalStream()\<close> resolves
  to, \<open>None\<close> when it rejects. The result is the number of the new stream.
\<close>

definition newStream ::
  "StreamMuxerInit option \<Rightarrow> nat \<Rightarrow> nat option \<Rightarrow> bool \<Rightarrow> world \<Rightarrow> (error + nat) \<times> world" where
  "newStream init now created ready w =
     (case created of
        None \<Rightarrow> (Inl CreateStreamFailed, w)
      | Some wtStream \<Rightarrow>
          (let streamId = streamIDCounter w;
               w1 = w\<lparr>streamIDCounter := streamId + 1\<rparr>;
               direction' = (case init of None \<Rightarrow> Outbound
                             | Some i \<Rightarrow> (case init_direction i of None \<Rightarrow> Outbound | Some d \<Rightarrow> d))
           in case webtransportBiDiStreamToStream wtStream ready direction' now of
                None \<Rightarrow> (Inl WriterNotReady, w1)
              | Some stream' \<Rightarrow>
                  (Inr streamId,
                   w1\<lparr>streams := (streams w1)(streamId := stream'),
                      activeStreams := activeStreams w1 @ [streamId]\<rparr>)))"

text \<open>\<^verbatim>\<open>muxer.close\<close> closes the native session and nothing else.\<close>

definition muxerClose :: "world \<Rightarrow> world" where
  "muxerClose w = emit SessionClose w"

subsection \<open>Interleavings\<close>

text \<open>
  The code runs on one thread: each call below runs to its end (or to its next \<^verbatim>\<open>await\<close>)
  before another starts. An interleaving is a list of such calls. Wrapping a stream and
  pushing it on \<^verbatim>\<open>activeStreams\<close> is one step here; the caller receives the stream object only
  after the push.
\<close>

datatype call =
    NewStream nat "nat option" bool
  | InboundRead nat read_result
  | CloseRead nat nat
  | CloseWrite nat nat
  | Close nat nat
  | Abort nat nat
  | Reset nat nat
  | Sink nat nat source "nat option"
  | SourceEnd nat nat
  | WriterClosedSettled nat nat
  | ReaderClosedSettled nat nat
  | CancelRejectedReset nat
  | CloseRejectedReset nat
  | MuxerClose

fun step :: "int \<Rightarrow> StreamMuxerInit option \<Rightarrow> world \<Rightarrow> call \<Rightarrow> world" where
  "step maxInbound init w (NewStream now created ready) = snd (newStream init now created ready w)"
| "step maxInbound init w (InboundRead now r) = inboundRead maxInbound now r w"
| "step maxInbound init w (CloseRead s now) = closeRead s now w"
| "step maxInbound init w (CloseWrite s now) = closeWrite s now w"
| "step maxInbound init w (Close s now) = close s now w"
| "step maxInbound init w (Abort s now) = abort s now w"
| "step maxInbound init w (Reset s now) = reset s now w"
| "step maxInbound init w (Sink s now source' budget) = snd (sink s now source' budget w)"
| "step maxInbound init w (SourceEnd s now) = sourceEnd s now w"
| "step maxInbound init w (WriterClosedSettled s now) = writerClosedSettled s now w"
| "step maxInbound init w (ReaderClosedSettled s now) = readerClosedSettled s now w"
| "step maxInbound init w (CancelRejectedReset s) = cancelRejectedReset s w"
| "step maxInbound init w (CloseRejectedReset s) = closeRejectedReset s w"
| "step maxInbound init w MuxerClose = muxerClose w"

definition run :: "int \<Rightarrow> StreamMuxerInit option \<Rightarrow> call list \<Rightarrow> world \<Rightarrow> world" where
  "run maxInbound init calls w = foldl (step maxInbound init) w calls"

text \<open>
  What holds of the active array in every state a muxer reaches: no stream is on it twice,
  and every stream on it was numbered by the counter.
\<close>

definition wellFormed :: "world \<Rightarrow> bool" where
  "wellFormed w \<longleftrightarrow>
     distinct (activeStreams w) \<and> list_all (\<lambda>j. j < streamIDCounter w) (activeStreams w)"

text \<open>How often the stream-end observer has been called for a stream.\<close>

definition notified :: "nat \<Rightarrow> world \<Rightarrow> nat" where
  "notified s w = count_list (trace w) (OnStreamEnd s)"

text \<open>What \<^verbatim>\<open>Date.now()\<close> returns during a call (0 for the calls that never ask).\<close>

fun callTime :: "call \<Rightarrow> nat" where
  "callTime (NewStream now created ready) = now"
| "callTime (InboundRead now r) = now"
| "callTime (CloseRead s now) = now"
| "callTime (CloseWrite s now) = now"
| "callTime (Close s now) = now"
| "callTime (Abort s now) = now"
| "callTime (Reset s now) = now"
| "callTime (Sink s now source' budget) = now"
| "callTime (SourceEnd s now) = now"
| "callTime (WriterClosedSettled s now) = now"
| "callTime (ReaderClosedSettled s now) = now"
| "callTime (CancelRejectedReset s) = 0"
| "callTime (CloseRejectedReset s) = 0"
| "callTime MuxerClose = 0"

text \<open>
  The two \<^verbatim>\<open>RESET_STREAM\<close> handlers set a flag of a stream and do nothing else; an
  interleaving is free of them for a stream when neither runs for it.
\<close>

definition noResetHandler :: "nat \<Rightarrow> call list \<Rightarrow> bool" where
  "noResetHandler s calls \<longleftrightarrow>
     \<not> list_ex (\<lambda>c. c = CancelRejectedReset s \<or> c = CloseRejectedReset s) calls"

subsection \<open>One stream seen through the calls\<close>

text \<open>
  What is observable of one stream \<open>s\<close> in a world: how often it stands on the active array,
  its three flags, its close timestamp, and how often the stream-end observer was called for
  it. Each call acts on this view as the function \<open>vstep\<close> says (proved below), and leaves the
  views of the other streams alone.
\<close>

record view =
  v_active :: nat
  v_reader :: bool
  v_writer :: bool
  v_sunk :: bool
  v_close :: "nat option"
  v_notified :: nat

definition obs :: "nat \<Rightarrow> world \<Rightarrow> view" where
  "obs s w =
     \<lparr>v_active = count_list (activeStreams w) s,
      v_reader = readerClosed (streams w s),
      v_writer = writerClosed (streams w s),
      v_sunk = sinkSunk (streams w s),
      v_close = timeline_close (streams w s),
      v_notified = notified s w\<rparr>"

definition vCleanup :: "nat \<Rightarrow> view \<Rightarrow> view" where
  "vCleanup now v =
     (if v_active v = 0 then v
      else v\<lparr>v_active := v_active v - 1, v_close := Some now, v_notified := Suc (v_notified v)\<rparr>)"

definition vCloseRead :: "nat \<Rightarrow> view \<Rightarrow> view" where
  "vCloseRead now v =
     (let v1 = v\<lparr>v_reader := True\<rparr> in if v_writer v1 then vCleanup now v1 else v1)"

definition vCloseWrite :: "nat \<Rightarrow> view \<Rightarrow> view" where
  "vCloseWrite now v =
     (let v1 = v\<lparr>v_writer := True\<rparr> in if v_reader v1 then vCleanup now v1 else v1)"

fun target :: "call \<Rightarrow> nat option" where
  "target (NewStream now created ready) = None"
| "target (InboundRead now r) = None"
| "target (CloseRead s now) = Some s"
| "target (CloseWrite s now) = Some s"
| "target (Close s now) = Some s"
| "target (Abort s now) = Some s"
| "target (Reset s now) = Some s"
| "target (Sink s now source' budget) = Some s"
| "target (SourceEnd s now) = Some s"
| "target (WriterClosedSettled s now) = Some s"
| "target (ReaderClosedSettled s now) = Some s"
| "target (CancelRejectedReset s) = Some s"
| "target (CloseRejectedReset s) = Some s"
| "target MuxerClose = None"

fun vstep :: "view \<Rightarrow> call \<Rightarrow> view" where
  "vstep v (NewStream now created ready) = v"
| "vstep v (InboundRead now r) = v"
| "vstep v (CloseRead s now) = vCloseRead now v"
| "vstep v (CloseWrite s now) = vCloseWrite now v"
| "vstep v (Close s now) = vCleanup now (vCloseWrite now (vCloseRead now v))"
| "vstep v (Abort s now) = vCleanup now ((vCloseRead now (v\<lparr>v_writer := True\<rparr>))\<lparr>v_reader := True\<rparr>)"
| "vstep v (Reset s now) = vCleanup now (vCloseWrite now (vCloseRead now v))"
| "vstep v (Sink s now source' budget) = (if v_sunk v then v else vCloseWrite now (v\<lparr>v_sunk := True\<rparr>))"
| "vstep v (SourceEnd s now) = vCloseRead now v"
| "vstep v (WriterClosedSettled s now) = vCloseWrite now v"
| "vstep v (ReaderClosedSettled s now) = vCloseRead now v"
| "vstep v (CancelRejectedReset s) = v\<lparr>v_writer := True\<rparr>"
| "vstep v (CloseRejectedReset s) = v\<lparr>v_reader := True\<rparr>"
| "vstep v MuxerClose = v"

text \<open>Finalization that acts only when both flags of the stream are set.\<close>

definition cleanupIfBothClosed :: "nat \<Rightarrow> nat \<Rightarrow> world \<Rightarrow> world" where
  "cleanupIfBothClosed s now w =
     (if readerClosed (streams w s) \<and> writerClosed (streams w s)
      then cleanupStreamFromActiveStreams s now w else w)"

text \<open>
  \<open>finalizes s now w'\<close>: the world \<open>w'\<close> is what \<^verbatim>\<open>cleanupStreamFromActiveStreams\<close> makes, at
  time \<open>now\<close>, of a world in which the stream is on the active array and both its flags are
  set. So in \<open>w'\<close> the stream has just been spliced out, stamped and reported to the observer,
  this was the last thing done, and both flags were set when it was done.
\<close>

definition finalizes :: "nat \<Rightarrow> nat \<Rightarrow> world \<Rightarrow> bool" where
  "finalizes s now w' \<longleftrightarrow>
     (\<exists>mid. s \<in> set (activeStreams mid)
        \<and> readerClosed (streams mid s) \<and> writerClosed (streams mid s)
        \<and> w' = cleanupStreamFromActiveStreams s now mid)"

text \<open>
  \<open>finalizedBy\<close>: one call of the interleaving took the stream off the active array; the
  world that call left is the finalization, at the time of the call, of a world with the
  stream on the array and both flags set; both flags are set when the call is over; and the
  close timestamp the stream has at the end of the interleaving is the time of that call.
  \<open>onceInv\<close> is what the proof below carries through an interleaving.
\<close>

definition finalizedBy :: "int \<Rightarrow> StreamMuxerInit option \<Rightarrow> nat \<Rightarrow> world \<Rightarrow> call list \<Rightarrow> bool" where
  "finalizedBy N init s w0 calls \<longleftrightarrow>
     (\<exists>before c after. calls = before @ c # after
        \<and> s \<in> set (activeStreams (run N init before w0))
        \<and> s \<notin> set (activeStreams (run N init (before @ [c]) w0))
        \<and> finalizes s (callTime c) (run N init (before @ [c]) w0)
        \<and> readerClosed (streams (run N init (before @ [c]) w0) s)
        \<and> writerClosed (streams (run N init (before @ [c]) w0) s)
        \<and> timeline_close (streams (run N init calls w0) s) = Some (callTime c))"

definition onceInv :: "int \<Rightarrow> StreamMuxerInit option \<Rightarrow> nat \<Rightarrow> world \<Rightarrow> call list \<Rightarrow> bool" where
  "onceInv N init s w0 calls \<longleftrightarrow>
     (let v0 = obs s w0; v = obs s (run N init calls w0) in
        v_active v \<le> 1
      \<and> (v_reader v0 \<longrightarrow> v_reader v) \<and> (v_writer v0 \<longrightarrow> v_writer v)
      \<and> (v_active v = 1 \<longrightarrow> v_notified v = v_notified v0 \<and> v_close v = v_close v0)
      \<and> (v_active v = 0 \<longrightarrow> v_notified v = Suc (v_notified v0) \<and> v_reader v \<and> v_writer v
            \<and> finalizedBy N init s w0 calls)
      \<and> (\<not> (v_reader v0 \<and> v_writer v0) \<and> noResetHandler s calls \<and> v_reader v \<and> v_writer v
            \<longrightarrow> v_active v = 0))"

text \<open>
  The calls that close the read half of their stream, and those that close its write half
  (\<^verbatim>\<open>close\<close>, \<^verbatim>\<open>abort\<close> and \<^verbatim>\<open>reset\<close> close both; a sink ends with \<^verbatim>\<open>closeWrite\<close>; the source
  at its end and the two observers set the flag of their half and try to finalize).
\<close>

fun readClosing :: "call \<Rightarrow> bool" where
  "readClosing (CloseRead s now) = True"
| "readClosing (Close s now) = True"
| "readClosing (Abort s now) = True"
| "readClosing (Reset s now) = True"
| "readClosing (SourceEnd s now) = True"
| "readClosing (ReaderClosedSettled s now) = True"
| "readClosing c = False"

fun writeClosing :: "call \<Rightarrow> bool" where
  "writeClosing (CloseWrite s now) = True"
| "writeClosing (Close s now) = True"
| "writeClosing (Abort s now) = True"
| "writeClosing (Reset s now) = True"
| "writeClosing (Sink s now source' budget) = True"
| "writeClosing (WriterClosedSettled s now) = True"
| "writeClosing c = False"

definition readClosed :: "nat \<Rightarrow> call list \<Rightarrow> bool" where
  "readClosed s calls = list_ex (\<lambda>c. target c = Some s \<and> readClosing c) calls"

definition writeClosed :: "nat \<Rightarrow> call list \<Rightarrow> bool" where
  "writeClosed s calls = list_ex (\<lambda>c. target c = Some s \<and> writeClosing c) calls"

definition closingInv :: "bool \<Rightarrow> bool \<Rightarrow> view \<Rightarrow> bool" where
  "closingInv rc wc v \<longleftrightarrow>
     (rc \<longrightarrow> v_reader v) \<and> (wc \<longrightarrow> v_writer v) \<and> (v_sunk v \<longrightarrow> v_writer v)
     \<and> (rc \<and> (wc \<or> v_sunk v) \<longrightarrow> v_active v = 0)"

text \<open>A muxer with one outbound stream, number 0, on native stream 7, opened at time 1.\<close>

definition oneStream :: world where
  "oneStream = snd (newStream None 1 (Some 7) True (snd (createStreamMuxer None webtransportMuxer)))"

section \<open>Verified properties\<close>

subsection \<open>Properties of the subset check\<close>

lemmas codes = code_ip4_def code_ip6_def code_dns4_def code_dns6_def code_udp_def
  code_p2p_def code_quic_def code_webtransport_def code_certhash_def

lemma sameBytesFrom_iff:
  "length a = length b \<Longrightarrow>
   sameBytesFrom i a b \<longleftrightarrow> (\<forall>k. i \<le> k \<and> k < length a \<longrightarrow> b ! k = a ! k)"
proof (induction i a b rule: sameBytesFrom.induct)
  case (1 index byteArray otherByteArray)
  show ?case
  proof (cases "index < length byteArray")
    case False
    then show ?thesis
      by (auto simp: sameBytesFrom.simps [of index])
  next
    case inside: True
    show ?thesis
    proof (cases "otherByteArray ! index = byteArray ! index")
      case False
      with inside show ?thesis
        by (auto simp: sameBytesFrom.simps [of index])
    next
      case True
      have "sameBytesFrom index byteArray otherByteArray
            = sameBytesFrom (Suc index) byteArray otherByteArray"
        using inside True by (simp add: sameBytesFrom.simps [of index])
      also have "\<dots> = (\<forall>k. Suc index \<le> k \<and> k < length byteArray
                          \<longrightarrow> otherByteArray ! k = byteArray ! k)"
        using "1.IH" [OF inside _ "1.prems"] True by simp
      also have "\<dots> = (\<forall>k. index \<le> k \<and> k < length byteArray
                          \<longrightarrow> otherByteArray ! k = byteArray ! k)"
        using True by (metis Suc_leI le_eq_less_or_eq Suc_leD)
      finally show ?thesis .
    qed
  qed
qed

lemma sameBytes_pointwise:
  "sameBytes a b \<longleftrightarrow> length a = length b \<and> (\<forall>k < length a. b ! k = a ! k)"
  by (auto simp: sameBytes_def sameBytesFrom_iff)

lemma sameBytes_eq: "sameBytes a b \<longleftrightarrow> a = b"
  by (auto simp: sameBytes_pointwise list_eq_iff_nth_eq)

lemma foundIn_iff: "foundIn A b \<longleftrightarrow> b \<in> set A"
  by (auto simp: foundIn_def find_None_iff sameBytes_eq)

lemma length_filter_all: "length (filter P xs) = length xs \<longleftrightarrow> (\<forall>x \<in> set xs. P x)"
proof (induction xs)
  case Nil
  show ?case by simp
next
  case (Cons x xs)
  show ?case
  proof (cases "P x")
    case True
    with Cons show ?thesis by simp
  next
    case False
    have "length (filter P xs) \<noteq> Suc (length xs)"
      using length_filter_le [of P xs] by linarith
    with False show ?thesis by simp
  qed
qed

lemma isSubset_iff: "isSubset A B \<longleftrightarrow> set B \<subseteq> set A"
  by (auto simp: isSubset_def length_filter_all foundIn_iff)

text \<open>
  C2. \<^verbatim>\<open>isSubset(A, B)\<close> is true exactly when every array of \<open>B\<close> has an array of \<open>A\<close> of the
  same length with the same byte at every index (which is equality of the two arrays);
  \<^verbatim>\<open>isSubset(A, [])\<close> is true for every \<open>A\<close>, and \<^verbatim>\<open>isSubset([], B)\<close> is false for every
  non-empty \<open>B\<close>.
\<close>

theorem isSubset_correct:
  "(isSubset A B \<longleftrightarrow>
      (\<forall>b \<in> set B. \<exists>a \<in> set A. length a = length b \<and> (\<forall>i < length b. a ! i = b ! i)))
   \<and> (isSubset A B \<longleftrightarrow> (\<forall>b \<in> set B. b \<in> set A))
   \<and> isSubset A []
   \<and> (B \<noteq> [] \<longrightarrow> \<not> isSubset [] B)"
proof -
  have eq: "(\<exists>a \<in> set A. length a = length b \<and> (\<forall>i < length b. a ! i = b ! i)) \<longleftrightarrow> b \<in> set A"
    for b :: bytes
    by (metis list_eq_iff_nth_eq)
  have "isSubset A B \<longleftrightarrow> (\<forall>b \<in> set B. b \<in> set A)"
    by (auto simp: isSubset_iff)
  moreover have "isSubset A []"
    by (simp add: isSubset_iff)
  moreover have "B \<noteq> [] \<longrightarrow> \<not> isSubset [] B"
    by (simp add: isSubset_iff)
  ultimately show ?thesis
    by (simp add: eq)
qed

theorem isSubset_correct_witness:
  "isSubset [[1, 2, 3], [4, 5, 6]] [[1, 2, 3]]
   \<and> \<not> isSubset [[1, 2, 3]] [[1, 2]]
   \<and> \<not> isSubset [[1, 2, 3]] [[1, 2, 3], [4, 5, 6]]
   \<and> isSubset [[1, 2, 3], [4, 5, 6]] []
   \<and> \<not> isSubset [] [[1, 2, 3]]"
  using isSubset_correct [of "[[1, 2, 3], [4, 5, 6]]" "[[1, 2, 3]]", THEN conjunct2, THEN conjunct1]
        isSubset_correct [of "[[1, 2, 3]]" "[[1, 2]]", THEN conjunct2, THEN conjunct1]
        isSubset_correct [of "[[1, 2, 3]]" "[[1, 2, 3], [4, 5, 6]]", THEN conjunct2, THEN conjunct1]
        isSubset_correct [of "[[1, 2, 3], [4, 5, 6]]" "[]", THEN conjunct2, THEN conjunct1]
        isSubset_correct [of "[]" "[[1, 2, 3]]", THEN conjunct2, THEN conjunct1]
  by simp

subsection \<open>Parsing\<close>

lemma reduceE_snoc:
  "reduceE f s (xs @ [x]) = (case reduceE f s xs of Inl e \<Rightarrow> Inl e | Inr s' \<Rightarrow> f s' x)"
  by (induction xs arbitrary: s) (auto split: sum.splits)

lemma hostSeen_snoc: "hostSeen (xs @ [x]) \<longleftrightarrow> hostSeen xs \<or> isHost (fst x)"
  by (auto simp: hostSeen_def list_ex_iff)

lemma portSeen_snoc: "portSeen (xs @ [x]) \<longleftrightarrow> portSeen xs \<or> fst x = code_udp"
  by (auto simp: portSeen_def list_ex_iff)

lemma anyAt_index:
  "anyAt P before xs \<longleftrightarrow> (\<exists>i < length xs. P (xs ! i) (before @ take i xs))"
proof (induction xs arbitrary: before)
  case Nil
  show ?case by simp
next
  case (Cons x xs)
  have "(\<exists>i < length (x # xs). P ((x # xs) ! i) (before @ take i (x # xs)))
        \<longleftrightarrow> P x before \<or> (\<exists>j < length xs. P (xs ! j) ((before @ [x]) @ take j xs))"
    by (auto simp: less_Suc_eq_0_disj)
  with Cons show ?case by simp
qed

lemma ex_less_snoc:
  "(\<exists>i < length (xs @ [x]). P ((xs @ [x]) ! i) (take i (xs @ [x])))
   \<longleftrightarrow> (\<exists>i < length xs. P (xs ! i) (take i xs)) \<or> P x xs"
proof -
  have "(\<exists>i < length (xs @ [x]). P ((xs @ [x]) ! i) (take i (xs @ [x])))
        \<longleftrightarrow> (\<exists>i < length xs. P ((xs @ [x]) ! i) (take i (xs @ [x])))
            \<or> P ((xs @ [x]) ! length xs) (take (length xs) (xs @ [x]))"
    by (auto simp: less_Suc_eq)
  also have "\<dots> \<longleftrightarrow> (\<exists>i < length xs. P (xs ! i) (take i xs)) \<or> P x xs"
    by (auto simp: nth_append)
  finally show ?thesis .
qed

lemma parseStep_cases:
  assumes "describes dec pid xs st"
  shows "(violation dec pid x xs \<longrightarrow> isl (parseStep dec pid st x))
       \<and> (\<not> violation dec pid x xs \<longrightarrow>
            (\<exists>st'. parseStep dec pid st x = Inr st' \<and> describes dec pid (xs @ [x]) st'))"
  using assms
  by (cases x)
     (simp add: parseStep_def violation_def describes_def hostSeen_snoc portSeen_snoc
           urlOf_def urlPiece_def certhashesOf_def remotePeerOf_def map_filter_def
           isHost_def isMarker_def recognised_def codes
         split: option.splits list.splits)

lemma describes_initial: "describes dec pid [] initialParseState"
  by (simp add: describes_def initialParseState_def urlOf_def certhashesOf_def
        hostSeen_def portSeen_def remotePeerOf_def map_filter_def)

lemma reduce_parse:
  "(isl (reduceE (parseStep dec pid) initialParseState parts)
      \<longleftrightarrow> (\<exists>i < length parts. violation dec pid (parts ! i) (take i parts)))
   \<and> (\<forall>st. reduceE (parseStep dec pid) initialParseState parts = Inr st
          \<longrightarrow> describes dec pid parts st)"
proof (induction parts rule: rev_induct)
  case Nil
  show ?case by (simp add: describes_initial)
next
  case (snoc x xs)
  have split: "(\<exists>i < length (xs @ [x]). violation dec pid ((xs @ [x]) ! i) (take i (xs @ [x])))
      \<longleftrightarrow> (\<exists>i < length xs. violation dec pid (xs ! i) (take i xs)) \<or> violation dec pid x xs"
    by (rule ex_less_snoc)
  show ?case
  proof (cases "reduceE (parseStep dec pid) initialParseState xs")
    case (Inl e)
    with snoc show ?thesis
      unfolding split reduceE_snoc by simp
  next
    case (Inr st)
    with snoc have d: "describes dec pid xs st"
      and none: "\<not> (\<exists>i < length xs. violation dec pid (xs ! i) (take i xs))"
      by auto
    from parseStep_cases [OF d, of x] Inr none show ?thesis
      unfolding split reduceE_snoc by auto
  qed
qed

lemma violation_somewhere:
  "(\<exists>i < length parts. violation dec pid (parts ! i) (take i parts))
   \<longleftrightarrow> listedRejection parts \<or> hostAfterHostOrPort parts \<or> undecodable dec pid parts"
proof -
  have a: "list_ex Q parts \<longleftrightarrow> (\<exists>i < length parts. Q (parts ! i))" for Q :: "part \<Rightarrow> bool"
    by (metis list_ex_iff in_set_conv_nth)
  show ?thesis
    unfolding listedRejection_def earlyFingerprintOrMarker_def portRepeated_def
      unrecognisedComponent_def hostAfterHostOrPort_def undecodable_def violation_def a
      anyAt_index append_Nil
    by blast
qed

lemma parse_certhashes:
  assumes "parseMultiaddr dec pid parts = Inr parsed"
  shows "p_certhashes parsed = certhashesOf dec parts"
proof (cases "reduceE (parseStep dec pid) initialParseState parts")
  case (Inl e)
  with assms show ?thesis
    by (simp add: parseMultiaddr_def)
next
  case (Inr st)
  with reduce_parse [of dec pid parts] have "certhashes st = certhashesOf dec parts"
    by (simp add: describes_def)
  with assms Inr show ?thesis
    by (auto simp: parseMultiaddr_def)
qed

lemma certhashesOf_none:
  "\<not> list_ex (\<lambda>x. fst x = code_certhash) parts \<Longrightarrow> certhashesOf dec parts = []"
  by (induction parts) (auto simp: certhashesOf_def map_filter_def)

lemmas parse_eval = parseMultiaddr_def parseStep_def initialParseState_def orEmpty_def
  plainDigest_def codes

lemmas address_eval = listedRejection_def earlyFingerprintOrMarker_def portRepeated_def
  unrecognisedComponent_def recognised_def isHost_def isMarker_def hostSeen_def portSeen_def
  hostAfterHostOrPort_def undecodable_def urlOf_def urlPiece_def certhashesOf_def
  remotePeerOf_def map_filter_def

text \<open>
  C7, as stated: parsing throws when a fingerprint or a quic/webtransport marker comes before
  both a host and a port, when the port comes a second time, or when a component is outside
  the recognised set; otherwise it returns the URL, the digests and the peer.
  The address \<^verbatim>\<open>/ip4/1.2.3.4/ip4/5.6.7.8\<close> has none of the three defects, and parsing it
  throws: the first case of the \<^verbatim>\<open>switch\<close> refuses a host after a host or a port.
\<close>

theorem parseMultiaddr_counterexample:
  "\<not> listedRejection [(code_ip4, Some ''1.2.3.4''), (code_ip4, Some ''5.6.7.8'')]
   \<and> parseMultiaddr plainDigest Some [(code_ip4, Some ''1.2.3.4''), (code_ip4, Some ''5.6.7.8'')]
       = (Inl HostAfterHostOrPort :: error + string parsed)"
  by (simp add: address_eval parse_eval)

text \<open>
  C7, amended: parsing throws exactly when one of the three listed defects is present, or a
  host component comes after a host or a port, or a fingerprint or peer id does not decode;
  otherwise it returns the https URL built from host and port, the decoded fingerprints in
  order of appearance, and the peer of the last p2p component, if any.
\<close>

theorem parseMultiaddr_rejections:
  "(isl (parseMultiaddr decodeCerthashStr peerIdFromString parts)
      \<longleftrightarrow> listedRejection parts \<or> hostAfterHostOrPort parts
          \<or> undecodable decodeCerthashStr peerIdFromString parts)
   \<and> (\<not> isl (parseMultiaddr decodeCerthashStr peerIdFromString parts) \<longrightarrow>
        parseMultiaddr decodeCerthashStr peerIdFromString parts
        = Inr \<lparr>p_url = urlOf parts, p_certhashes = certhashesOf decodeCerthashStr parts,
               p_remotePeer = remotePeerOf peerIdFromString parts\<rparr>)"
proof (cases "reduceE (parseStep decodeCerthashStr peerIdFromString) initialParseState parts")
  case (Inl e)
  with reduce_parse [of decodeCerthashStr peerIdFromString parts] show ?thesis
    by (simp add: parseMultiaddr_def violation_somewhere)
next
  case (Inr st)
  with reduce_parse [of decodeCerthashStr peerIdFromString parts] show ?thesis
    by (simp add: parseMultiaddr_def violation_somewhere describes_def)
qed

theorem parseMultiaddr_rejections_witness:
  "parseMultiaddr plainDigest Some
     [(code_ip4, Some ''127.0.0.1''), (code_udp, Some ''9091''), (code_quic, None),
      (code_webtransport, None), (code_certhash, Some ''ab''), (code_p2p, Some ''peer'')]
   = Inr \<lparr>p_url = ''https://127.0.0.1:9091'',
          p_certhashes = [\<lparr>mh_code = 18, mh_digest = [97, 98], mh_bytes = [18, 2, 97, 98]\<rparr>],
          p_remotePeer = Some ''peer''\<rparr>"
  using parseMultiaddr_rejections [of plainDigest Some
     "[(code_ip4, Some ''127.0.0.1''), (code_udp, Some ''9091''), (code_quic, None),
      (code_webtransport, None), (code_certhash, Some ''ab''), (code_p2p, Some ''peer'')]"]
  by (simp add: address_eval orEmpty_def plainDigest_def codes)

subsection \<open>Dialing\<close>

text \<open>
  C1. When the dial reaches the handshake and the fingerprints taken from the dialed address
  are not all among the fingerprints the listener reports (so there is at least one of them),
  authentication fails, the native session is closed, and \<^verbatim>\<open>dial\<close> rejects with that one
  error; the upgrader is never called.
\<close>

theorem dial_rejects_fingerprint_mismatch:
  assumes "peerId t = Some localPeer"
    and "parseMultiaddr decodeCerthashStr peerIdFromString ma = Inr parsed"
    and "sessionReady env" and "authStream env" and "authWriterReady env"
    and "secureOutbound env = HandshakeDone reported"
    and "\<not> set (map mh_bytes (p_certhashes parsed))
            \<subseteq> set (case reported of None \<Rightarrow> [] | Some cs \<Rightarrow> cs)"
  shows "dial t decodeCerthashStr peerIdFromString ma env =
           (Inl CerthashesNotSubset,
            [NewWebTransport (p_url parsed @ ''/.well-known/libp2p-webtransport?type=noise'')
                             (map mh_digest (p_certhashes parsed)),
             AuthWriterClose, AuthReaderCancel, SessionClose])"
proof -
  have "\<not> isSubset (case reported of None \<Rightarrow> [] | Some cs \<Rightarrow> cs)
                    (map mh_bytes (p_certhashes parsed))"
    using assms(7) by (simp only: isSubset_iff not_False_eq_True)
  then have "authenticateWebTransport env (p_certhashes parsed) tr
             = (Inl CerthashesNotSubset, tr @ [AuthWriterClose, AuthReaderCancel])" for tr
    using assms(4-6) by (simp add: authenticateWebTransport_def)
  then show ?thesis
    using assms(1-3) by (simp add: dial_def dialTry_def)
qed

theorem dial_rejects_fingerprint_mismatch_witness:
  "dial (webTransport \<lparr>init_maxInboundStreams = None, init_certificates = None\<rparr> (Some ''me''))
        plainDigest Some
        [(code_ip4, Some ''127.0.0.1''), (code_udp, Some ''9091''), (code_quic, None),
         (code_webtransport, None), (code_certhash, Some ''ab''), (code_p2p, Some ''peer'')]
        \<lparr>sessionReady = True, authStream = True, authWriterReady = True,
         secureOutbound = HandshakeDone (Some [[18, 2, 97, 99]]), signalAborted = False,
         upgradeOutboundOk = True\<rparr>
   = (Inl CerthashesNotSubset,
      [NewWebTransport ''https://127.0.0.1:9091/.well-known/libp2p-webtransport?type=noise'' [[97, 98]],
       AuthWriterClose, AuthReaderCancel, SessionClose])"
  using dial_rejects_fingerprint_mismatch
    [of "webTransport \<lparr>init_maxInboundStreams = None, init_certificates = None\<rparr> (Some ''me'')"
        "''me''" plainDigest Some
        "[(code_ip4, Some ''127.0.0.1''), (code_udp, Some ''9091''), (code_quic, None),
         (code_webtransport, None), (code_certhash, Some ''ab''), (code_p2p, Some ''peer'')]"
        "\<lparr>p_url = ''https://127.0.0.1:9091'',
          p_certhashes = [\<lparr>mh_code = 18, mh_digest = [97, 98], mh_bytes = [18, 2, 97, 98]\<rparr>],
          p_remotePeer = Some ''peer''\<rparr>"
        "\<lparr>sessionReady = True, authStream = True, authWriterReady = True,
         secureOutbound = HandshakeDone (Some [[18, 2, 97, 99]]), signalAborted = False,
         upgradeOutboundOk = True\<rparr>"
        "Some [[18, 2, 97, 99]]"]
  by (simp add: parse_eval webTransport_def)

text \<open>
  C10. When the dialed address has no certhash component, the parsed fingerprint list is
  empty, the subset check holds whatever the listener reports (also when it reports
  nothing), and the authentication step accepts once the handshake is done.
\<close>

theorem no_fingerprints_authenticates:
  assumes "parseMultiaddr decodeCerthashStr peerIdFromString ma = Inr parsed"
    and "\<not> list_ex (\<lambda>x. fst x = code_certhash) ma"
    and "authStream env" and "authWriterReady env"
    and "secureOutbound env = HandshakeDone reported"
  shows "p_certhashes parsed = []
       \<and> isSubset (case reported of None \<Rightarrow> [] | Some cs \<Rightarrow> cs) (map mh_bytes (p_certhashes parsed))
       \<and> authenticateWebTransport env (p_certhashes parsed) tr
           = (Inr True, tr @ [AuthWriterClose, AuthReaderCancel])"
proof -
  have none: "p_certhashes parsed = []"
    using parse_certhashes [OF assms(1)] certhashesOf_none [OF assms(2)] by simp
  moreover have sub: "isSubset R (map mh_bytes (p_certhashes parsed))" for R
    by (simp add: none isSubset_iff)
  moreover have "authenticateWebTransport env (p_certhashes parsed) tr
           = (Inr True, tr @ [AuthWriterClose, AuthReaderCancel])"
    using assms(3-5) sub by (simp add: authenticateWebTransport_def)
  ultimately show ?thesis by simp
qed

theorem no_fingerprints_authenticates_witness:
  "authenticateWebTransport
     \<lparr>sessionReady = True, authStream = True, authWriterReady = True,
      secureOutbound = HandshakeDone (Some [[18, 2, 97, 99]]), signalAborted = False,
      upgradeOutboundOk = True\<rparr> [] []
   = (Inr True, [AuthWriterClose, AuthReaderCancel])"
  using no_fingerprints_authenticates
    [of plainDigest "Some :: string \<Rightarrow> string option"
        "[(code_ip4, Some ''127.0.0.1''), (code_udp, Some ''9091''), (code_quic, None),
         (code_webtransport, None), (code_p2p, Some ''peer'')]"
        "\<lparr>p_url = ''https://127.0.0.1:9091'', p_certhashes = [], p_remotePeer = Some ''peer''\<rparr>"
        "\<lparr>sessionReady = True, authStream = True, authWriterReady = True,
         secureOutbound = HandshakeDone (Some [[18, 2, 97, 99]]), signalAborted = False,
         upgradeOutboundOk = True\<rparr>"
        "Some [[18, 2, 97, 99]]" "[]"]
  by (simp add: parse_eval)

subsection \<open>Configuration\<close>

text \<open>
  C9. The ceiling defaults to 1000 and the server's session timeout is 1000 ms. A transport
  configured with \<^verbatim>\<open>maxInboundStreams: 5\<close> gives the muxer of a dialed connection the ceiling
  5, but the listener it creates gives the muxer of an accepted session the ceiling 1000:
  \<^verbatim>\<open>createListener\<close> does not pass the value on, and \<^verbatim>\<open>onSession\<close> writes 1000.
\<close>

theorem listener_ceiling_is_fixed:
  "maxInboundStreams (config (webTransport \<lparr>init_maxInboundStreams = None, init_certificates = cs\<rparr> p)) = 1000
   \<and> sessionTimeout createServer = 1000
   \<and> snd (dialTry (webTransport \<lparr>init_maxInboundStreams = Some 5, init_certificates = Some [c]\<rparr> p)
         \<lparr>sessionReady = True, authStream = True, authWriterReady = True,
          secureOutbound = HandshakeDone None, signalAborted = False, upgradeOutboundOk = True\<rparr>
         \<lparr>p_url = u, p_certhashes = [], p_remotePeer = None\<rparr> [])
       = [AuthWriterClose, AuthReaderCancel, UpgradeOutbound 5]
   \<and> createListener (webTransport \<lparr>init_maxInboundStreams = Some 5, init_certificates = Some [c]\<rparr> p) h
       = Inr \<lparr>l_certificates = [c], l_peerId = p, l_handler = h\<rparr>
   \<and> onSession \<lparr>l_certificates = [c], l_peerId = p, l_handler = False\<rparr>
        \<lparr>firstStream = True, secureInbound = True, upgradeInboundOk = True\<rparr> []
       = (Inr (), [UpgradeInbound 1000, AuthWriterClose, ConnectionTracked, ConnectionEvent])"
  by (simp add: webTransport_def createServer_def dialTry_def authenticateWebTransport_def
        isSubset_def createListener_def onSession_def)

subsection \<open>Creating the muxer\<close>

text \<open>
  C8. With a signal that is already aborted, \<^verbatim>\<open>createStreamMuxer\<close> closes the session and
  throws the abort error, and no muxer is returned; but the loop that drains inbound streams
  has been started before the signal is looked at, and a native stream it reads afterwards is
  wrapped, put on the active array and given to the incoming-stream callback.
\<close>

theorem createStreamMuxer_aborted_starts_loop:
  "createStreamMuxer (Some \<lparr>init_direction = d, init_signal = Some True\<rparr>) webtransportMuxer
     = (Inl AbortError, webtransportMuxer\<lparr>loopRunning := True, trace := [SessionClose]\<rparr>)
   \<and> inboundRead 1000 now (ReadStream h True)
        (snd (createStreamMuxer (Some \<lparr>init_direction = d, init_signal = Some True\<rparr>) webtransportMuxer))
     = webtransportMuxer
         \<lparr>activeStreams := [0], streamIDCounter := 1,
          streams := (\<lambda>i. blankStream)(0 := \<lparr>native = h, direction = Inbound, writerClosed = False,
                        readerClosed = False, sinkSunk = False, timeline_open = now,
                        timeline_close = None\<rparr>),
          loopRunning := True, trace := [SessionClose, OnIncomingStream 0]\<rparr>"
  by (simp add: createStreamMuxer_def aborted_def webtransportMuxer_def emit_def inboundRead_def
        webtransportBiDiStreamToStream_def)

subsection \<open>Streams\<close>

lemma findIndex_None: "findIndex (\<lambda>s. s = i) xs = None \<longleftrightarrow> i \<notin> set xs"
  by (induction xs) auto

lemma findIndex_splice:
  "findIndex (\<lambda>s. s = i) xs = Some k \<Longrightarrow> splice1 k xs = remove1 i xs"
proof (induction xs arbitrary: k)
  case Nil
  then show ?case by simp
next
  case (Cons x xs)
  show ?case
  proof (cases "x = i")
    case True
    with Cons.prems show ?thesis by (simp add: splice1_def)
  next
    case False
    with Cons.prems obtain j where j: "findIndex (\<lambda>s. s = i) xs = Some j" and k: "k = Suc j"
      by auto
    from Cons.IH [OF j] False show ?thesis
      by (simp add: k splice1_def)
  qed
qed

lemma cleanup_alt:
  "cleanupStreamFromActiveStreams i now w =
     (if i \<in> set (activeStreams w)
      then w\<lparr>activeStreams := remove1 i (activeStreams w),
             streams := (streams w)(i := (streams w i)\<lparr>timeline_close := Some now\<rparr>),
             trace := trace w @ [OnStreamEnd i]\<rparr>
      else w)"
proof (cases "findIndex (\<lambda>s. s = i) (activeStreams w)")
  case None
  then have "i \<notin> set (activeStreams w)"
    using findIndex_None [of i "activeStreams w"] by auto
  with None show ?thesis
    by (simp add: cleanupStreamFromActiveStreams_def)
next
  case (Some k)
  then have "i \<in> set (activeStreams w)"
    using findIndex_None [of i "activeStreams w"] by auto
  with Some show ?thesis
    by (simp add: cleanupStreamFromActiveStreams_def findIndex_splice emit_def)
qed

lemmas prims = emit_def setWriterClosed_def setReaderClosed_def setSinkSunk_def cleanup_alt

lemmas stream_calls = closeRead_def closeWrite_def close_def abort_def reset_def sourceEnd_def
  writerClosedSettled_def readerClosedSettled_def cancelRejectedReset_def closeRejectedReset_def

lemma closeRead_twice:
  "distinct (activeStreams w) \<Longrightarrow> closeRead s now' (closeRead s now w) = closeRead s now w"
  by (simp add: closeRead_def prims Let_def)

lemma closeWrite_twice:
  "distinct (activeStreams w) \<Longrightarrow> closeWrite s now' (closeWrite s now w) = closeWrite s now w"
  by (simp add: closeWrite_def prims Let_def)

lemma writeBufs_count:
  "(\<And>h b. e \<noteq> WriterWrite h b) \<Longrightarrow>
   count_list (snd (snd (writeBufs h bufs budget tr))) e = count_list tr e"
  by (induction h bufs budget tr rule: writeBufs.induct) auto

lemma writeChunk_count:
  "(\<And>h b. e \<noteq> WriterWrite h b) \<Longrightarrow>
   count_list (snd (snd (writeChunk h c budget tr))) e = count_list tr e"
  by (simp add: writeChunk_def writeBufs_count split: chunk.splits)

lemma writeChunks_count:
  assumes "\<And>h b. e \<noteq> WriterWrite h b"
  shows "count_list (snd (snd (writeChunks h cs budget tr))) e = count_list tr e"
proof (induction cs arbitrary: budget tr)
  case Nil
  show ?case by simp
next
  case (Cons c cs)
  obtain ok b' tr' where r: "writeChunk h c budget tr = (ok, b', tr')"
    by (cases "writeChunk h c budget tr") auto
  have "count_list tr' e = count_list tr e"
    using writeChunk_count [of e h c budget tr] assms r by simp
  then show ?case
    by (cases ok) (simp_all add: r Cons.IH)
qed

lemma sink_alt:
  "snd (sink s now src budget w) =
     (if sinkSunk (streams w s) then w
      else closeWrite s now
             ((setSinkSunk s w)\<lparr>trace := snd (snd (writeChunks (native (streams w s)) (yields src)
                                                      budget (trace w)))\<rparr>))"
  by (simp add: sink_def setSinkSunk_def split: prod.splits)

lemma writeBufs_all:
  "writeBufs h bufs None tr = (True, None, tr @ map (WriterWrite h) bufs)"
  by (induction bufs arbitrary: tr) auto

lemma writeChunks_all:
  "writeChunks h cs None tr = (True, None, tr @ map (WriterWrite h) (concat (map chunkBufs cs)))"
  by (induction cs arbitrary: tr)
     (auto simp: writeChunk_def chunkBufs_def writeBufs_all split: chunk.splits)

lemma count_list_remove1:
  "count_list (remove1 j xs) s = (if j = s \<and> s \<in> set xs then count_list xs s - 1 else count_list xs s)"
  by (induction xs) auto

lemma count_list_pos: "count_list xs s = 0 \<longleftrightarrow> s \<notin> set xs"
  by (induction xs) auto

lemma obs_cleanup:
  "obs s (cleanupStreamFromActiveStreams j now w)
   = (if j = s then vCleanup now (obs s w) else obs s w)"
  by (auto simp: cleanup_alt obs_def vCleanup_def notified_def count_list_remove1 count_list_pos)

lemma obs_emit: "e \<noteq> OnStreamEnd s \<Longrightarrow> obs s (emit e w) = obs s w"
  by (simp add: obs_def emit_def notified_def)

lemma obs_setReaderClosed:
  "obs s (setReaderClosed j w) = (if j = s then (obs s w)\<lparr>v_reader := True\<rparr> else obs s w)"
  by (simp add: obs_def setReaderClosed_def notified_def)

lemma obs_setWriterClosed:
  "obs s (setWriterClosed j w) = (if j = s then (obs s w)\<lparr>v_writer := True\<rparr> else obs s w)"
  by (simp add: obs_def setWriterClosed_def notified_def)

lemma obs_setSinkSunk:
  "obs s (setSinkSunk j w) = (if j = s then (obs s w)\<lparr>v_sunk := True\<rparr> else obs s w)"
  by (simp add: obs_def setSinkSunk_def notified_def)

lemma obs_fields:
  "readerClosed (streams w s) = v_reader (obs s w)"
  "writerClosed (streams w s) = v_writer (obs s w)"
  "sinkSunk (streams w s) = v_sunk (obs s w)"
  by (simp_all add: obs_def)

lemmas obs_prims = obs_cleanup obs_emit obs_setReaderClosed obs_setWriterClosed obs_setSinkSunk

lemma view_idem [simp]:
  "v_reader v \<Longrightarrow> v\<lparr>v_reader := True\<rparr> = v"
  "v_writer v \<Longrightarrow> v\<lparr>v_writer := True\<rparr> = v"
  "v_sunk v \<Longrightarrow> v\<lparr>v_sunk := True\<rparr> = v"
  by (cases v; simp)+

lemma obs_closeRead:
  "obs s (closeRead j now w) = (if j = s then vCloseRead now (obs s w) else obs s w)"
proof (cases "j = s")
  case True
  show ?thesis
    unfolding closeRead_def Let_def True obs_fields
    by (simp add: obs_prims vCloseRead_def)
next
  case False
  then show ?thesis
    by (simp add: closeRead_def Let_def obs_prims)
qed


lemma obs_closeWrite:
  "obs s (closeWrite j now w) = (if j = s then vCloseWrite now (obs s w) else obs s w)"
proof (cases "j = s")
  case True
  show ?thesis
    unfolding closeWrite_def Let_def True obs_fields
    by (simp add: obs_prims vCloseWrite_def)
next
  case False
  then show ?thesis
    by (simp add: closeWrite_def Let_def obs_prims)
qed

lemma obs_sourceEnd:
  "obs s (sourceEnd j now w) = (if j = s then vCloseRead now (obs s w) else obs s w)"
proof (cases "j = s")
  case True
  show ?thesis
    unfolding sourceEnd_def Let_def True obs_fields
    by (simp add: obs_prims vCloseRead_def)
next
  case False
  then show ?thesis
    by (simp add: sourceEnd_def Let_def obs_prims)
qed

lemma obs_writerClosedSettled:
  "obs s (writerClosedSettled j now w) = (if j = s then vCloseWrite now (obs s w) else obs s w)"
proof (cases "j = s")
  case True
  show ?thesis
    unfolding writerClosedSettled_def Let_def True obs_fields
    by (simp add: obs_prims vCloseWrite_def)
next
  case False
  then show ?thesis
    by (simp add: writerClosedSettled_def Let_def obs_prims)
qed

lemma obs_readerClosedSettled:
  "obs s (readerClosedSettled j now w) = (if j = s then vCloseRead now (obs s w) else obs s w)"
proof (cases "j = s")
  case True
  show ?thesis
    unfolding readerClosedSettled_def Let_def True obs_fields
    by (simp add: obs_prims vCloseRead_def)
next
  case False
  then show ?thesis
    by (simp add: readerClosedSettled_def Let_def obs_prims)
qed

lemma obs_close:
  "obs s (close j now w)
   = (if j = s then vCleanup now (vCloseWrite now (vCloseRead now (obs s w))) else obs s w)"
  by (simp add: close_def obs_cleanup obs_closeWrite obs_closeRead)

lemma obs_abort:
  "obs s (abort j now w)
   = (if j = s then vCleanup now ((vCloseRead now ((obs s w)\<lparr>v_writer := True\<rparr>))\<lparr>v_reader := True\<rparr>)
      else obs s w)"
proof (cases "j = s")
  case True
  show ?thesis
    unfolding abort_def Let_def True obs_fields
    by (simp add: obs_prims obs_closeRead)
next
  case False
  then show ?thesis
    by (simp add: abort_def Let_def obs_prims obs_closeRead)
qed

lemma obs_trace:
  "count_list tr (OnStreamEnd s) = count_list (trace w) (OnStreamEnd s) \<Longrightarrow>
   obs s (w\<lparr>trace := tr\<rparr>) = obs s w"
  by (simp add: obs_def notified_def)

lemma obs_sink_writes:
  "obs s ((setSinkSunk j w)\<lparr>trace := snd (snd (writeChunks h cs budget (trace w)))\<rparr>)
   = obs s (setSinkSunk j w)"
proof -
  have "count_list (snd (snd (writeChunks h cs budget (trace w)))) (OnStreamEnd s)
        = count_list (trace (setSinkSunk j w)) (OnStreamEnd s)"
    by (simp add: writeChunks_count setSinkSunk_def)
  then show ?thesis
    by (rule obs_trace)
qed

lemma obs_sink_own:
  "obs s (snd (sink s now src budget w))
   = (if v_sunk (obs s w) then obs s w else vCloseWrite now ((obs s w)\<lparr>v_sunk := True\<rparr>))"
  by (simp add: sink_alt obs_closeWrite obs_sink_writes obs_setSinkSunk obs_fields)

lemma obs_sink_other:
  "j \<noteq> s \<Longrightarrow> obs s (snd (sink j now src budget w)) = obs s w"
  by (simp add: sink_alt obs_closeWrite obs_sink_writes obs_setSinkSunk)

lemma obs_sink:
  "obs s (snd (sink j now src budget w))
   = (if j = s then (if v_sunk (obs s w) then obs s w
                     else vCloseWrite now ((obs s w)\<lparr>v_sunk := True\<rparr>))
      else obs s w)"
  using obs_sink_own [of s now src budget w] obs_sink_other [of j s now src budget w]
  by (cases "j = s") simp_all

lemma obs_newStream:
  "s < streamIDCounter w \<Longrightarrow> obs s (snd (newStream init now created ready w)) = obs s w"
  by (auto simp: newStream_def obs_def notified_def webtransportBiDiStreamToStream_def Let_def
           split: option.splits)

lemma obs_inboundRead:
  "s < streamIDCounter w \<Longrightarrow> obs s (inboundRead N now r w) = obs s w"
  by (auto simp: inboundRead_def obs_def notified_def webtransportBiDiStreamToStream_def Let_def
        emit_def split: option.splits read_result.splits)

lemma obs_step:
  "s < streamIDCounter w \<Longrightarrow>
   obs s (step N init w c) = (if target c = Some s then vstep (obs s w) c else obs s w)"
  by (cases c)
     (simp_all add: obs_newStream obs_inboundRead obs_closeRead obs_closeWrite obs_close obs_abort
        reset_def obs_sink obs_sourceEnd obs_writerClosedSettled obs_readerClosedSettled
        cancelRejectedReset_def closeRejectedReset_def obs_setWriterClosed obs_setReaderClosed
        muxerClose_def obs_emit)

lemmas view_defs = vCleanup_def vCloseRead_def vCloseWrite_def Let_def

lemma vstep_active_le: "v_active (vstep v c) \<le> v_active v"
  by (cases c) (auto simp: view_defs)

lemma vstep_flags:
  "v_reader v \<Longrightarrow> v_reader (vstep v c)"
  "v_writer v \<Longrightarrow> v_writer (vstep v c)"
  by (cases c; auto simp: view_defs)+

lemma vstep_removal:
  assumes "v_active v = 1" and "v_active (vstep v c) = 0"
  shows "v_notified (vstep v c) = Suc (v_notified v) \<and> v_reader (vstep v c)
       \<and> v_writer (vstep v c) \<and> v_close (vstep v c) = Some (callTime c)"
  using assms by (cases c) (auto simp: view_defs split: if_splits)

lemma vstep_stays:
  assumes "v_active v = 1" and "v_active (vstep v c) = 1"
  shows "v_notified (vstep v c) = v_notified v \<and> v_close (vstep v c) = v_close v"
  using assms by (cases c) (auto simp: view_defs split: if_splits)

lemma vstep_gone:
  assumes "v_active v = 0"
  shows "v_active (vstep v c) = 0 \<and> v_notified (vstep v c) = v_notified v
       \<and> v_close (vstep v c) = v_close v"
  using assms by (cases c) (auto simp: view_defs split: if_splits)

lemma vstep_closed:
  assumes "v_active v \<le> 1"
    and "v_reader v \<and> v_writer v \<longrightarrow> v_active v = 0"
    and "c \<noteq> CancelRejectedReset s" and "c \<noteq> CloseRejectedReset s" and "target c = Some s"
    and "v_reader (vstep v c)" and "v_writer (vstep v c)"
  shows "v_active (vstep v c) = 0"
  using assms by (cases c) (auto simp: view_defs split: if_splits)


lemma counter_cleanup [simp]:
  "streamIDCounter (cleanupStreamFromActiveStreams j now w) = streamIDCounter w"
  by (simp add: cleanup_alt)

lemma counter_prims [simp]:
  "streamIDCounter (emit e w) = streamIDCounter w"
  "streamIDCounter (setReaderClosed j w) = streamIDCounter w"
  "streamIDCounter (setWriterClosed j w) = streamIDCounter w"
  "streamIDCounter (setSinkSunk j w) = streamIDCounter w"
  by (simp_all add: emit_def setReaderClosed_def setWriterClosed_def setSinkSunk_def)

lemma counter_closeRead [simp]: "streamIDCounter (closeRead j now w) = streamIDCounter w"
  by (simp add: closeRead_def Let_def)

lemma counter_closeWrite [simp]: "streamIDCounter (closeWrite j now w) = streamIDCounter w"
  by (simp add: closeWrite_def Let_def)

lemma step_counter: "streamIDCounter w \<le> streamIDCounter (step N init w c)"
proof (cases c)
  case (NewStream now created ready)
  then show ?thesis
    by (simp add: newStream_def webtransportBiDiStreamToStream_def Let_def split: option.splits)
next
  case (InboundRead now r)
  then show ?thesis
    by (simp add: inboundRead_def webtransportBiDiStreamToStream_def Let_def
          split: option.splits read_result.splits)
next
  case (Sink j now src budget)
  then show ?thesis
    by (simp add: sink_alt)
qed (simp_all add: close_def abort_def reset_def sourceEnd_def writerClosedSettled_def
       readerClosedSettled_def cancelRejectedReset_def closeRejectedReset_def muxerClose_def
       Let_def)

lemma run_snoc: "run N init (calls @ [c]) w = step N init (run N init calls w) c"
  by (simp add: run_def)

lemma run_counter: "streamIDCounter w \<le> streamIDCounter (run N init calls w)"
proof (induction calls rule: rev_induct)
  case Nil
  show ?case by (simp add: run_def)
next
  case (snoc c calls)
  from snoc step_counter [of "run N init calls w" N init c] show ?case
    by (simp add: run_snoc)
qed

lemma run_obs_snoc:
  assumes "s < streamIDCounter w"
  shows "obs s (run N init (calls @ [c]) w)
         = (if target c = Some s then vstep (obs s (run N init calls w)) c
            else obs s (run N init calls w))"
proof -
  have "s < streamIDCounter (run N init calls w)"
    using assms run_counter [of w N init calls] by simp
  then show ?thesis
    by (simp add: run_snoc obs_step)
qed

lemma active_obs: "s \<in> set (activeStreams w) \<longleftrightarrow> v_active (obs s w) \<noteq> 0"
  by (simp add: obs_def count_list_pos)

lemma count_list_distinct:
  "distinct xs \<Longrightarrow> count_list xs s = (if s \<in> set xs then 1 else 0)"
  by (induction xs) auto

lemma wellFormed_obs:
  assumes "wellFormed w" and "s \<in> set (activeStreams w)"
  shows "v_active (obs s w) = 1" and "s < streamIDCounter w"
  using assms by (auto simp: wellFormed_def obs_def list_all_iff count_list_distinct)


lemma obs_sel [simp]:
  "v_reader (obs s w) = readerClosed (streams w s)"
  "v_writer (obs s w) = writerClosed (streams w s)"
  "v_close (obs s w) = timeline_close (streams w s)"
  "v_notified (obs s w) = notified s w"
  by (simp_all add: obs_def)

lemma wf_cleanup: "wellFormed w \<Longrightarrow> wellFormed (cleanupStreamFromActiveStreams j now w)"
  by (auto simp: wellFormed_def cleanup_alt list_all_iff dest: notin_set_remove1)

lemma wf_prims:
  "wellFormed (emit e w) = wellFormed w"
  "wellFormed (setReaderClosed j w) = wellFormed w"
  "wellFormed (setWriterClosed j w) = wellFormed w"
  "wellFormed (setSinkSunk j w) = wellFormed w"
  "wellFormed (w\<lparr>trace := tr\<rparr>) = wellFormed w"
  by (simp_all add: wellFormed_def emit_def setReaderClosed_def setWriterClosed_def setSinkSunk_def)

lemma wf_closeRead: "wellFormed w \<Longrightarrow> wellFormed (closeRead j now w)"
  by (simp add: closeRead_def Let_def wf_cleanup wf_prims)

lemma wf_closeWrite: "wellFormed w \<Longrightarrow> wellFormed (closeWrite j now w)"
  by (simp add: closeWrite_def Let_def wf_cleanup wf_prims)

lemma step_wellFormed: "wellFormed w \<Longrightarrow> wellFormed (step N init w c)"
proof (cases c)
  case (NewStream now created ready)
  assume "wellFormed w"
  with NewStream show ?thesis
    by (auto simp: wellFormed_def list_all_iff newStream_def webtransportBiDiStreamToStream_def
          Let_def split: option.splits)
next
  case (InboundRead now r)
  assume "wellFormed w"
  with InboundRead show ?thesis
    by (auto simp: wellFormed_def list_all_iff inboundRead_def webtransportBiDiStreamToStream_def
          emit_def Let_def split: option.splits read_result.splits)
next
  case (Sink j now src budget)
  assume "wellFormed w"
  with Sink show ?thesis
    by (simp add: sink_alt wf_closeWrite wf_prims)
qed (simp_all add: close_def abort_def reset_def sourceEnd_def writerClosedSettled_def
       readerClosedSettled_def cancelRejectedReset_def closeRejectedReset_def muxerClose_def
       Let_def wf_cleanup wf_prims wf_closeRead wf_closeWrite)

lemma run_wellFormed: "wellFormed w \<Longrightarrow> wellFormed (run N init calls w)"
proof (induction calls rule: rev_induct)
  case Nil
  then show ?case by (simp add: run_def)
next
  case (snoc c calls)
  then show ?case by (simp add: run_snoc step_wellFormed)
qed

lemma created_wellFormed: "wellFormed (snd (createStreamMuxer init w))"
  by (simp add: createStreamMuxer_def wellFormed_def emit_def Let_def)

lemma finalizesI:
  "s \<in> set (activeStreams mid) \<Longrightarrow> readerClosed (streams mid s) \<Longrightarrow> writerClosed (streams mid s)
   \<Longrightarrow> finalizes s now (cleanupStreamFromActiveStreams s now mid)"
  unfolding finalizes_def by blast

lemma cleanup_noop:
  "s \<notin> set (activeStreams w) \<Longrightarrow> cleanupStreamFromActiveStreams s now w = w"
  by (simp add: cleanup_alt)

lemma setReaderClosed_idem:
  assumes "readerClosed (streams w s)"
  shows "setReaderClosed s w = w"
proof -
  have "(streams w s)\<lparr>readerClosed := True\<rparr> = streams w s"
    using assms by (cases "streams w s") simp
  then show ?thesis
    by (simp add: setReaderClosed_def)
qed

lemma closeRead_finalizes:
  assumes "s \<in> set (activeStreams w)" and "s \<notin> set (activeStreams (closeRead s now w))"
  shows "finalizes s now (closeRead s now w)"
proof -
  let ?w1 = "if \<not> readerClosed (streams w s)
             then setReaderClosed s (emit (ReaderCancel (native (streams w s))) w) else w"
  have act: "s \<in> set (activeStreams ?w1)"
    using assms(1) by (simp add: setReaderClosed_def emit_def)
  have rd: "readerClosed (streams ?w1 s)"
    by (simp add: setReaderClosed_def emit_def)
  have eq: "closeRead s now w
            = (if writerClosed (streams ?w1 s) then cleanupStreamFromActiveStreams s now ?w1 else ?w1)"
    by (simp add: closeRead_def Let_def)
  show ?thesis
  proof (cases "writerClosed (streams ?w1 s)")
    case True
    from finalizesI [OF act rd True, of now] eq True show ?thesis
      by simp
  next
    case False
    with eq act assms(2) show ?thesis
      by simp
  qed
qed

lemma closeWrite_finalizes:
  assumes "s \<in> set (activeStreams w)" and "s \<notin> set (activeStreams (closeWrite s now w))"
  shows "finalizes s now (closeWrite s now w)"
proof -
  let ?w1 = "if \<not> writerClosed (streams w s)
             then emit (WriterClose (native (streams w s))) (setWriterClosed s w) else w"
  have act: "s \<in> set (activeStreams ?w1)"
    using assms(1) by (simp add: setWriterClosed_def emit_def)
  have wr: "writerClosed (streams ?w1 s)"
    by (simp add: setWriterClosed_def emit_def)
  have eq: "closeWrite s now w
            = (if readerClosed (streams ?w1 s) then cleanupStreamFromActiveStreams s now ?w1 else ?w1)"
    by (simp add: closeWrite_def Let_def)
  show ?thesis
  proof (cases "readerClosed (streams ?w1 s)")
    case True
    from finalizesI [OF act True wr, of now] eq True show ?thesis
      by simp
  next
    case False
    with eq act assms(2) show ?thesis
      by simp
  qed
qed

lemma sourceEnd_finalizes:
  assumes "s \<in> set (activeStreams w)" and "s \<notin> set (activeStreams (sourceEnd s now w))"
  shows "finalizes s now (sourceEnd s now w)"
proof -
  let ?w1 = "setReaderClosed s w"
  have act: "s \<in> set (activeStreams ?w1)"
    using assms(1) by (simp add: setReaderClosed_def)
  have rd: "readerClosed (streams ?w1 s)"
    by (simp add: setReaderClosed_def)
  have eq: "sourceEnd s now w
            = (if writerClosed (streams ?w1 s) then cleanupStreamFromActiveStreams s now ?w1 else ?w1)"
    by (simp add: sourceEnd_def Let_def)
  show ?thesis
  proof (cases "writerClosed (streams ?w1 s)")
    case True
    from finalizesI [OF act rd True, of now] eq True show ?thesis
      by simp
  next
    case False
    with eq act assms(2) show ?thesis
      by simp
  qed
qed

lemma readerClosedSettled_finalizes:
  assumes "s \<in> set (activeStreams w)" and "s \<notin> set (activeStreams (readerClosedSettled s now w))"
  shows "finalizes s now (readerClosedSettled s now w)"
proof -
  let ?w1 = "setReaderClosed s w"
  have act: "s \<in> set (activeStreams ?w1)"
    using assms(1) by (simp add: setReaderClosed_def)
  have rd: "readerClosed (streams ?w1 s)"
    by (simp add: setReaderClosed_def)
  have eq: "readerClosedSettled s now w
            = (if writerClosed (streams ?w1 s) \<and> readerClosed (streams ?w1 s)
               then cleanupStreamFromActiveStreams s now ?w1 else ?w1)"
    by (simp add: readerClosedSettled_def Let_def)
  show ?thesis
  proof (cases "writerClosed (streams ?w1 s)")
    case True
    from finalizesI [OF act rd True, of now] eq True rd show ?thesis
      by simp
  next
    case False
    with eq act assms(2) show ?thesis
      by simp
  qed
qed

lemma writerClosedSettled_finalizes:
  assumes "s \<in> set (activeStreams w)" and "s \<notin> set (activeStreams (writerClosedSettled s now w))"
  shows "finalizes s now (writerClosedSettled s now w)"
proof -
  let ?w1 = "setWriterClosed s w"
  have act: "s \<in> set (activeStreams ?w1)"
    using assms(1) by (simp add: setWriterClosed_def)
  have wr: "writerClosed (streams ?w1 s)"
    by (simp add: setWriterClosed_def)
  have eq: "writerClosedSettled s now w
            = (if writerClosed (streams ?w1 s) \<and> readerClosed (streams ?w1 s)
               then cleanupStreamFromActiveStreams s now ?w1 else ?w1)"
    by (simp add: writerClosedSettled_def Let_def)
  show ?thesis
  proof (cases "readerClosed (streams ?w1 s)")
    case True
    from finalizesI [OF act True wr, of now] eq True wr show ?thesis
      by simp
  next
    case False
    with eq act assms(2) show ?thesis
      by simp
  qed
qed

lemma flags_closeRead:
  "readerClosed (streams (closeRead s now w) s)"
  "writerClosed (streams (closeRead s now w) s) = writerClosed (streams w s)"
  using arg_cong [OF obs_closeRead [of s s now w], of v_reader]
        arg_cong [OF obs_closeRead [of s s now w], of v_writer]
  by (simp_all add: view_defs)

lemma flags_closeWrite:
  "writerClosed (streams (closeWrite s now w) s)"
  "readerClosed (streams (closeWrite s now w) s) = readerClosed (streams w s)"
  using arg_cong [OF obs_closeWrite [of s s now w], of v_writer]
        arg_cong [OF obs_closeWrite [of s s now w], of v_reader]
  by (simp_all add: view_defs)

lemma finalizes_flags:
  assumes "finalizes s now w"
  shows "readerClosed (streams w s)" and "writerClosed (streams w s)"
  using assms unfolding finalizes_def by (auto simp: cleanup_alt)

lemma closeWrite_noop:
  "writerClosed (streams w s) \<Longrightarrow> s \<notin> set (activeStreams w) \<Longrightarrow> closeWrite s now w = w"
  by (simp add: closeWrite_def Let_def cleanup_noop)

lemma close_finalizes:
  assumes "s \<in> set (activeStreams w)" and "s \<notin> set (activeStreams (close s now w))"
  shows "finalizes s now (close s now w)"
proof -
  let ?a = "closeRead s now w"
  let ?b = "closeWrite s now ?a"
  have eq: "close s now w = cleanupStreamFromActiveStreams s now ?b"
    by (simp add: close_def)
  show ?thesis
  proof (cases "s \<in> set (activeStreams ?a)")
    case False
    from closeRead_finalizes [OF assms(1) False] have fa: "finalizes s now ?a" .
    have "?b = ?a"
      using finalizes_flags(2) [OF fa] False by (rule closeWrite_noop)
    with eq False fa show ?thesis
      by (simp add: cleanup_noop)
  next
    case inA: True
    show ?thesis
    proof (cases "s \<in> set (activeStreams ?b)")
      case False
      from closeWrite_finalizes [OF inA False] have "finalizes s now ?b" .
      with eq False show ?thesis
        by (simp add: cleanup_noop)
    next
      case True
      have "readerClosed (streams ?b s)" and "writerClosed (streams ?b s)"
        by (simp_all add: flags_closeWrite flags_closeRead)
      from finalizesI [OF True this, of now] eq show ?thesis
        by simp
    qed
  qed
qed

lemma abort_finalizes:
  assumes "s \<in> set (activeStreams w)" and "s \<notin> set (activeStreams (abort s now w))"
  shows "finalizes s now (abort s now w)"
proof -
  let ?w1 = "if \<not> writerClosed (streams w s)
             then setWriterClosed s (emit (WriterAbort (native (streams w s))) w) else w"
  let ?w2 = "closeRead s now ?w1"
  let ?w3 = "setReaderClosed s ?w2"
  have eq: "abort s now w = cleanupStreamFromActiveStreams s now ?w3"
    by (simp add: abort_def Let_def)
  have act1: "s \<in> set (activeStreams ?w1)"
    using assms(1) by (simp add: setWriterClosed_def emit_def)
  have wr1: "writerClosed (streams ?w1 s)"
    by (simp add: setWriterClosed_def emit_def)
  have rd2: "readerClosed (streams ?w2 s)" and wr2: "writerClosed (streams ?w2 s)"
    using wr1 by (simp_all only: flags_closeRead)
  have same: "?w3 = ?w2"
    using rd2 by (rule setReaderClosed_idem)
  show ?thesis
  proof (cases "s \<in> set (activeStreams ?w2)")
    case False
    from closeRead_finalizes [OF act1 False] have fin: "finalizes s now ?w2" .
    have "abort s now w = ?w2"
      by (simp only: eq same cleanup_noop [OF False])
    with fin show ?thesis
      by (simp only:)
  next
    case True
    have "abort s now w = cleanupStreamFromActiveStreams s now ?w2"
      by (simp only: eq same)
    with finalizesI [OF True rd2 wr2, of now] show ?thesis
      by (simp only:)
  qed
qed

lemma sink_finalizes:
  assumes "s \<in> set (activeStreams w)"
    and "s \<notin> set (activeStreams (snd (sink s now src budget w)))"
  shows "finalizes s now (snd (sink s now src budget w))"
proof (cases "sinkSunk (streams w s)")
  case True
  with assms show ?thesis
    by (simp add: sink_alt)
next
  case False
  let ?w1 = "(setSinkSunk s w)\<lparr>trace := snd (snd (writeChunks (native (streams w s)) (yields src)
                                                      budget (trace w)))\<rparr>"
  have eq: "snd (sink s now src budget w) = closeWrite s now ?w1"
    using False by (simp add: sink_alt)
  have act: "s \<in> set (activeStreams ?w1)"
    using assms(1) by (simp add: setSinkSunk_def)
  from closeWrite_finalizes [OF act, of now] assms(2) eq show ?thesis
    by simp
qed

lemma step_finalizes:
  assumes wf: "wellFormed w" and act: "s \<in> set (activeStreams w)"
    and gone: "s \<notin> set (activeStreams (step N init w c))"
  shows "finalizes s (callTime c) (step N init w c)"
proof -
  have bound: "s < streamIDCounter w"
    by (rule wellFormed_obs(2) [OF wf act])
  have tgt: "target c = Some s"
  proof (rule ccontr)
    assume "target c \<noteq> Some s"
    then have "obs s (step N init w c) = obs s w"
      using obs_step [OF bound, of N init c] by simp
    then have "v_active (obs s (step N init w c)) = v_active (obs s w)"
      by simp
    with act gone show False
      by (simp add: active_obs)
  qed
  show ?thesis
  proof (cases c)
    case (CloseRead j now)
    with tgt closeRead_finalizes [OF act, of now] gone show ?thesis by simp
  next
    case (CloseWrite j now)
    with tgt closeWrite_finalizes [OF act, of now] gone show ?thesis by simp
  next
    case (Close j now)
    with tgt close_finalizes [OF act, of now] gone show ?thesis by simp
  next
    case (Abort j now)
    with tgt abort_finalizes [OF act, of now] gone show ?thesis by simp
  next
    case (Reset j now)
    with tgt close_finalizes [OF act, of now] gone show ?thesis by (simp add: reset_def)
  next
    case (Sink j now src budget)
    with tgt sink_finalizes [OF act, of now src budget] gone show ?thesis by simp
  next
    case (SourceEnd j now)
    with tgt sourceEnd_finalizes [OF act, of now] gone show ?thesis by simp
  next
    case (WriterClosedSettled j now)
    with tgt writerClosedSettled_finalizes [OF act, of now] gone show ?thesis by simp
  next
    case (ReaderClosedSettled j now)
    with tgt readerClosedSettled_finalizes [OF act, of now] gone show ?thesis by simp
  next
    case (CancelRejectedReset j)
    with act gone show ?thesis
      by (simp add: cancelRejectedReset_def setWriterClosed_def)
  next
    case (CloseRejectedReset j)
    with act gone show ?thesis
      by (simp add: closeRejectedReset_def setReaderClosed_def)
  next
    case (NewStream now created ready)
    with tgt show ?thesis by simp
  next
    case (InboundRead now r)
    with tgt show ?thesis by simp
  next
    case MuxerClose
    with tgt show ?thesis by simp
  qed
qed

lemma noResetHandler_snoc:
  "noResetHandler s (calls @ [c])
   \<longleftrightarrow> noResetHandler s calls \<and> c \<noteq> CancelRejectedReset s \<and> c \<noteq> CloseRejectedReset s"
  by (auto simp: noResetHandler_def list_ex_iff)

lemma finalizedBy_later:
  assumes "finalizedBy N init s w0 calls"
    and "timeline_close (streams (run N init (calls @ [c]) w0) s)
         = timeline_close (streams (run N init calls w0) s)"
  shows "finalizedBy N init s w0 (calls @ [c])"
proof -
  from assms(1) obtain before d after where
    "calls = before @ d # after"
    "s \<in> set (activeStreams (run N init before w0))"
    "s \<notin> set (activeStreams (run N init (before @ [d]) w0))"
    "finalizes s (callTime d) (run N init (before @ [d]) w0)"
    "readerClosed (streams (run N init (before @ [d]) w0) s)"
    "writerClosed (streams (run N init (before @ [d]) w0) s)"
    "timeline_close (streams (run N init calls w0) s) = Some (callTime d)"
    unfolding finalizedBy_def by blast
  with assms(2) have
    "calls @ [c] = before @ d # (after @ [c])
     \<and> s \<in> set (activeStreams (run N init before w0))
     \<and> s \<notin> set (activeStreams (run N init (before @ [d]) w0))
     \<and> finalizes s (callTime d) (run N init (before @ [d]) w0)
     \<and> readerClosed (streams (run N init (before @ [d]) w0) s)
     \<and> writerClosed (streams (run N init (before @ [d]) w0) s)
     \<and> timeline_close (streams (run N init (calls @ [c]) w0) s) = Some (callTime d)"
    by simp
  then show ?thesis
    unfolding finalizedBy_def by blast
qed

lemma onceInv_Nil:
  assumes "wellFormed w0" and "s \<in> set (activeStreams w0)"
  shows "onceInv N init s w0 []"
  using wellFormed_obs(1) [OF assms]
  by (simp add: onceInv_def Let_def run_def)

lemma onceInv_snoc:
  assumes wf: "wellFormed w0" and act: "s \<in> set (activeStreams w0)"
    and IH: "onceInv N init s w0 calls"
  shows "onceInv N init s w0 (calls @ [c])"
proof -
  let ?w = "run N init calls w0"
  let ?wn = "run N init (calls @ [c]) w0"
  let ?start = "obs s w0"
  let ?v = "obs s ?w"
  let ?vn = "obs s ?wn"
  have bound: "s < streamIDCounter w0"
    by (rule wellFormed_obs(2) [OF wf act])
  have next': "?vn = (if target c = Some s then vstep ?v c else ?v)"
    by (rule run_obs_snoc [OF bound])
  from IH have le: "v_active ?v \<le> 1"
    and rd: "v_reader ?start \<longrightarrow> v_reader ?v" and wr: "v_writer ?start \<longrightarrow> v_writer ?v"
    and one: "v_active ?v = 1 \<longrightarrow> v_notified ?v = v_notified ?start \<and> v_close ?v = v_close ?start"
    and zero: "v_active ?v = 0 \<longrightarrow> v_notified ?v = Suc (v_notified ?start) \<and> v_reader ?v
                 \<and> v_writer ?v \<and> finalizedBy N init s w0 calls"
    and closed: "\<not> (v_reader ?start \<and> v_writer ?start) \<and> noResetHandler s calls \<and> v_reader ?v
                 \<and> v_writer ?v \<longrightarrow> v_active ?v = 0"
    unfolding onceInv_def Let_def by blast+
  show ?thesis
  proof (cases "target c = Some s")
    case False
    then have same: "?vn = ?v"
      using next' by simp
    have tl: "timeline_close (streams ?wn s) = timeline_close (streams ?w s)"
      using arg_cong [OF same, of v_close] by simp
    have fin: "finalizedBy N init s w0 calls \<longrightarrow> finalizedBy N init s w0 (calls @ [c])"
      using finalizedBy_later [OF _ tl] by blast
    have nr: "noResetHandler s (calls @ [c]) \<longrightarrow> noResetHandler s calls"
      by (simp add: noResetHandler_snoc)
    have c1: "v_active ?vn \<le> 1"
      using le by (simp only: same)
    have c2: "v_reader ?start \<longrightarrow> v_reader ?vn"
      using rd by (simp only: same)
    have c3: "v_writer ?start \<longrightarrow> v_writer ?vn"
      using wr by (simp only: same)
    have c4: "v_active ?vn = 1 \<longrightarrow> v_notified ?vn = v_notified ?start \<and> v_close ?vn = v_close ?start"
      using one by (simp only: same)
    have c5: "v_active ?vn = 0 \<longrightarrow> v_notified ?vn = Suc (v_notified ?start) \<and> v_reader ?vn
                 \<and> v_writer ?vn \<and> finalizedBy N init s w0 (calls @ [c])"
      using zero fin unfolding same by blast
    have c6: "\<not> (v_reader ?start \<and> v_writer ?start) \<and> noResetHandler s (calls @ [c])
                   \<and> v_reader ?vn \<and> v_writer ?vn \<longrightarrow> v_active ?vn = 0"
      using closed nr unfolding same by blast
    show ?thesis
      unfolding onceInv_def Let_def
      by (intro conjI c1 c2 c3 c4 c5 c6)
  next
    case True
    then have stepped: "?vn = vstep ?v c"
      using next' by simp
    have le': "v_active ?vn \<le> 1"
      using vstep_active_le [of ?v c] le stepped by simp
    have rd': "v_reader ?start \<longrightarrow> v_reader ?vn"
      using rd vstep_flags(1) [of ?v c] stepped by simp
    have wr': "v_writer ?start \<longrightarrow> v_writer ?vn"
      using wr vstep_flags(2) [of ?v c] stepped by simp
    have one': "v_active ?vn = 1 \<longrightarrow> v_notified ?vn = v_notified ?start \<and> v_close ?vn = v_close ?start"
    proof
      assume a': "v_active ?vn = 1"
      then have a: "v_active ?v = 1"
        using vstep_active_le [of ?v c] le stepped by simp
      from vstep_stays [OF a, of c] a' stepped one a
      show "v_notified ?vn = v_notified ?start \<and> v_close ?vn = v_close ?start"
        by simp
    qed
    have zero': "v_active ?vn = 0 \<longrightarrow> v_notified ?vn = Suc (v_notified ?start) \<and> v_reader ?vn
                 \<and> v_writer ?vn \<and> finalizedBy N init s w0 (calls @ [c])"
    proof
      assume a': "v_active ?vn = 0"
      show "v_notified ?vn = Suc (v_notified ?start) \<and> v_reader ?vn \<and> v_writer ?vn
            \<and> finalizedBy N init s w0 (calls @ [c])"
      proof (cases "v_active ?v = 0")
        case True
        from vstep_gone [OF True, of c] stepped
        have keep: "v_notified ?vn = v_notified ?v" "v_close ?vn = v_close ?v"
          by simp_all
        from keep(2) have tl: "timeline_close (streams ?wn s) = timeline_close (streams ?w s)"
          by simp
        from zero True have z: "v_notified ?v = Suc (v_notified ?start)" "v_reader ?v" "v_writer ?v"
          "finalizedBy N init s w0 calls"
          by simp_all
        have "v_reader ?vn" "v_writer ?vn"
          using z(2,3) vstep_flags [of ?v c] stepped by simp_all
        with keep z finalizedBy_later [OF z(4) tl] show ?thesis
          by simp
      next
        case False
        with le have a: "v_active ?v = 1"
          by simp
        from a' stepped have a'': "v_active (vstep ?v c) = 0"
          by simp
        from vstep_removal [OF a a''] stepped
        have r: "v_notified ?vn = Suc (v_notified ?v)" "v_reader ?vn" "v_writer ?vn"
          "v_close ?vn = Some (callTime c)"
          by simp_all
        have in_before: "s \<in> set (activeStreams ?w)"
          using a by (simp add: active_obs)
        have out_after: "s \<notin> set (activeStreams ?wn)"
          using a' by (simp add: active_obs)
        have "finalizes s (callTime c) (step N init ?w c)"
          using step_finalizes [OF run_wellFormed [OF wf] in_before] out_after
          by (simp only: run_snoc)
        then have fz: "finalizes s (callTime c) ?wn"
          by (simp only: run_snoc)
        have "calls @ [c] = calls @ c # []
              \<and> s \<in> set (activeStreams (run N init calls w0))
              \<and> s \<notin> set (activeStreams (run N init (calls @ [c]) w0))
              \<and> finalizes s (callTime c) (run N init (calls @ [c]) w0)
              \<and> readerClosed (streams (run N init (calls @ [c]) w0) s)
              \<and> writerClosed (streams (run N init (calls @ [c]) w0) s)
              \<and> timeline_close (streams (run N init (calls @ [c]) w0) s) = Some (callTime c)"
          using in_before out_after fz r by simp
        then have "finalizedBy N init s w0 (calls @ [c])"
          unfolding finalizedBy_def by blast
        with r one a show ?thesis
          by simp
      qed
    qed
    have closed': "\<not> (v_reader ?start \<and> v_writer ?start) \<and> noResetHandler s (calls @ [c])
                   \<and> v_reader ?vn \<and> v_writer ?vn \<longrightarrow> v_active ?vn = 0"
    proof
      assume h: "\<not> (v_reader ?start \<and> v_writer ?start) \<and> noResetHandler s (calls @ [c])
                 \<and> v_reader ?vn \<and> v_writer ?vn"
      then have nr: "noResetHandler s calls" "c \<noteq> CancelRejectedReset s" "c \<noteq> CloseRejectedReset s"
        by (simp_all add: noResetHandler_snoc)
      have pre: "v_reader ?v \<and> v_writer ?v \<longrightarrow> v_active ?v = 0"
        using closed h nr(1) by blast
      from h stepped have post: "v_reader (vstep ?v c)" "v_writer (vstep ?v c)"
        by simp_all
      from vstep_closed [OF le pre nr(2) nr(3) True post] stepped
      show "v_active ?vn = 0"
        by simp
    qed
    show ?thesis
      unfolding onceInv_def Let_def
      by (intro conjI le' rd' wr' one' zero' closed')
  qed
qed

lemma onceInv_run:
  assumes "wellFormed w0" and "s \<in> set (activeStreams w0)"
  shows "onceInv N init s w0 calls"
  by (induction calls rule: rev_induct)
     (simp_all add: onceInv_Nil [OF assms] onceInv_snoc [OF assms])

text \<open>
  Every world a muxer reaches after its creation, by any interleaving of calls, is
  well-formed: no stream stands twice on the active array, and every stream on it was
  numbered by the counter.
\<close>

theorem reachable_wellFormed:
  "wellFormed (run N init calls (snd (createStreamMuxer init' w)))"
  by (rule run_wellFormed [OF created_wellFormed])

text \<open>
  C6. In every well-formed world (and every world a muxer reaches is well-formed:
  \<open>created_wellFormed\<close>, \<open>run_wellFormed\<close>), a second \<^verbatim>\<open>closeRead\<close> changes nothing of what the
  first left, and likewise a second \<^verbatim>\<open>closeWrite\<close>: the same active array, the same flags and
  timestamps, and no further native call or observer call on the trace.
\<close>

theorem close_half_idempotent:
  assumes "wellFormed w"
  shows "closeRead s now' (closeRead s now w) = closeRead s now w
       \<and> closeWrite s now' (closeWrite s now w) = closeWrite s now w"
  using assms by (simp add: wellFormed_def closeRead_twice closeWrite_twice)

lemmas world_eval = oneStream_def newStream_def createStreamMuxer_def webtransportMuxer_def
  aborted_def webtransportBiDiStreamToStream_def blankStream_def run_def Let_def
  closeRead_def closeWrite_def close_def abort_def prims wellFormed_def notified_def

theorem close_half_idempotent_witness:
  "wellFormed oneStream
   \<and> closeRead 0 3 (closeRead 0 2 oneStream) = closeRead 0 2 oneStream
   \<and> closeWrite 0 3 (closeWrite 0 2 oneStream) = closeWrite 0 2 oneStream
   \<and> trace (closeRead 0 3 (closeRead 0 2 oneStream)) = [ReaderCancel 7]
   \<and> activeStreams (closeWrite 0 5 (closeWrite 0 4 (closeRead 0 3 (closeRead 0 2 oneStream)))) = []
   \<and> trace (closeWrite 0 5 (closeWrite 0 4 (closeRead 0 3 (closeRead 0 2 oneStream))))
       = [ReaderCancel 7, WriterClose 7, OnStreamEnd 0]"
proof -
  have wf: "wellFormed oneStream"
    by (simp add: world_eval)
  have wf2: "wellFormed (closeRead 0 2 oneStream)"
    by (simp add: world_eval)
  from wf close_half_idempotent [OF wf, of 0 3 2] close_half_idempotent [OF wf2, of 0 5 4]
  show ?thesis
    by (simp add: world_eval)
qed

subsection \<open>Finalization\<close>

lemma vstep_closing:
  assumes "v_active v \<le> 1" and "closingInv rc wc v"
  shows "closingInv (rc \<or> readClosing c) (wc \<or> writeClosing c) (vstep v c)"
  using assms by (cases c) (auto simp: closingInv_def view_defs)

lemma closingInv_run:
  assumes wf: "wellFormed w0" and act: "s \<in> set (activeStreams w0)"
    and sunk: "sinkSunk (streams w0 s) \<longrightarrow> writerClosed (streams w0 s)"
  shows "closingInv (readClosed s calls) (writeClosed s calls) (obs s (run N init calls w0))"
proof (induction calls rule: rev_induct)
  case Nil
  show ?case
    using sunk wellFormed_obs(1) [OF wf act]
    by (simp add: closingInv_def readClosed_def writeClosed_def run_def obs_fields [symmetric])
next
  case (snoc c calls)
  let ?v = "obs s (run N init calls w0)"
  have le: "v_active ?v \<le> 1"
    using onceInv_run [OF wf act, of N init calls] unfolding onceInv_def Let_def by blast
  have nxt: "obs s (run N init (calls @ [c]) w0)
             = (if target c = Some s then vstep ?v c else ?v)"
    by (rule run_obs_snoc [OF wellFormed_obs(2) [OF wf act]])
  show ?case
  proof (cases "target c = Some s")
    case True
    have "readClosed s (calls @ [c]) = (readClosed s calls \<or> readClosing c)"
      and "writeClosed s (calls @ [c]) = (writeClosed s calls \<or> writeClosing c)"
      using True by (auto simp: readClosed_def writeClosed_def list_ex_iff)
    with vstep_closing [OF le snoc, of c] nxt True show ?thesis
      by simp
  next
    case False
    have "readClosed s (calls @ [c]) = readClosed s calls"
      and "writeClosed s (calls @ [c]) = writeClosed s calls"
      using False by (auto simp: readClosed_def writeClosed_def list_ex_iff)
    with snoc nxt False show ?thesis
      by simp
  qed
qed

text \<open>
  Every call of \<^verbatim>\<open>cleanupStreamFromActiveStreams\<close> in \<^verbatim>\<open>closeRead\<close>, \<^verbatim>\<open>closeWrite\<close>, \<^verbatim>\<open>close\<close>,
  \<^verbatim>\<open>abort\<close>, the end of the source and the two observers is made in a state where both flags
  are set: putting a test of both flags in front of each of these calls changes none of the
  functions.
\<close>

theorem cleanup_call_sites:
  "closeRead s now w =
     (let w1 = (if \<not> readerClosed (streams w s)
                then setReaderClosed s (emit (ReaderCancel (native (streams w s))) w)
                else w)
      in if writerClosed (streams w1 s) then cleanupIfBothClosed s now w1 else w1)
   \<and> closeWrite s now w =
     (let w1 = (if \<not> writerClosed (streams w s)
                then emit (WriterClose (native (streams w s))) (setWriterClosed s w)
                else w)
      in if readerClosed (streams w1 s) then cleanupIfBothClosed s now w1 else w1)
   \<and> close s now w = cleanupIfBothClosed s now (closeWrite s now (closeRead s now w))
   \<and> abort s now w =
     (let w1 = (if \<not> writerClosed (streams w s)
                then setWriterClosed s (emit (WriterAbort (native (streams w s))) w)
                else w);
          w2 = closeRead s now w1;
          w3 = setReaderClosed s w2
      in cleanupIfBothClosed s now w3)
   \<and> sourceEnd s now w =
     (let w1 = setReaderClosed s w
      in if writerClosed (streams w1 s) then cleanupIfBothClosed s now w1 else w1)
   \<and> writerClosedSettled s now w =
     (let w1 = setWriterClosed s w
      in if writerClosed (streams w1 s) \<and> readerClosed (streams w1 s)
         then cleanupIfBothClosed s now w1 else w1)
   \<and> readerClosedSettled s now w =
     (let w1 = setReaderClosed s w
      in if writerClosed (streams w1 s) \<and> readerClosed (streams w1 s)
         then cleanupIfBothClosed s now w1 else w1)"
proof -
  have cr: "closeRead s now w =
     (let w1 = (if \<not> readerClosed (streams w s)
                then setReaderClosed s (emit (ReaderCancel (native (streams w s))) w)
                else w)
      in if writerClosed (streams w1 s) then cleanupIfBothClosed s now w1 else w1)"
    by (simp add: closeRead_def Let_def cleanupIfBothClosed_def setReaderClosed_def emit_def)
  have cw: "closeWrite s now w =
     (let w1 = (if \<not> writerClosed (streams w s)
                then emit (WriterClose (native (streams w s))) (setWriterClosed s w)
                else w)
      in if readerClosed (streams w1 s) then cleanupIfBothClosed s now w1 else w1)"
    by (simp add: closeWrite_def Let_def cleanupIfBothClosed_def setWriterClosed_def emit_def)
  have cl: "close s now w = cleanupIfBothClosed s now (closeWrite s now (closeRead s now w))"
    by (simp add: close_def cleanupIfBothClosed_def flags_closeWrite flags_closeRead)
  have ab: "abort s now w =
     (let w1 = (if \<not> writerClosed (streams w s)
                then setWriterClosed s (emit (WriterAbort (native (streams w s))) w)
                else w);
          w2 = closeRead s now w1;
          w3 = setReaderClosed s w2
      in cleanupIfBothClosed s now w3)"
  proof -
    let ?w1 = "if \<not> writerClosed (streams w s)
               then setWriterClosed s (emit (WriterAbort (native (streams w s))) w) else w"
    let ?w2 = "closeRead s now ?w1"
    have wr1: "writerClosed (streams ?w1 s)"
      by (simp add: setWriterClosed_def emit_def)
    have rd2: "readerClosed (streams ?w2 s)" and wr2: "writerClosed (streams ?w2 s)"
      using wr1 by (simp_all only: flags_closeRead)
    have same: "setReaderClosed s ?w2 = ?w2"
      using rd2 by (rule setReaderClosed_idem)
    have "cleanupIfBothClosed s now (setReaderClosed s ?w2)
          = cleanupStreamFromActiveStreams s now (setReaderClosed s ?w2)"
      using rd2 wr2 by (simp only: same cleanupIfBothClosed_def simp_thms if_True)
    then show ?thesis
      by (simp only: abort_def Let_def)
  qed
  have se: "sourceEnd s now w =
     (let w1 = setReaderClosed s w
      in if writerClosed (streams w1 s) then cleanupIfBothClosed s now w1 else w1)"
    by (simp add: sourceEnd_def Let_def cleanupIfBothClosed_def setReaderClosed_def)
  have ws: "writerClosedSettled s now w =
     (let w1 = setWriterClosed s w
      in if writerClosed (streams w1 s) \<and> readerClosed (streams w1 s)
         then cleanupIfBothClosed s now w1 else w1)"
    by (simp add: writerClosedSettled_def Let_def cleanupIfBothClosed_def setWriterClosed_def)
  have rs: "readerClosedSettled s now w =
     (let w1 = setReaderClosed s w
      in if writerClosed (streams w1 s) \<and> readerClosed (streams w1 s)
         then cleanupIfBothClosed s now w1 else w1)"
    by (simp add: readerClosedSettled_def Let_def cleanupIfBothClosed_def setReaderClosed_def)
  show ?thesis
    by (intro conjI cr cw cl ab se ws rs)
qed

text \<open>A stream with an open half stays active: one \<^verbatim>\<open>closeRead\<close> removes nothing.\<close>

theorem open_half_stays_active:
  "activeStreams (run 1000 None [CloseRead 0 2] oneStream) = [0]
   \<and> notified 0 (run 1000 None [CloseRead 0 2] oneStream) = 0
   \<and> timeline_close (streams (run 1000 None [CloseRead 0 2] oneStream) 0) = None"
  by (simp add: world_eval)


lemmas calls_eval = world_eval sourceEnd_def sink_alt setSinkSunk_def writeChunk_def
  noResetHandler_def readClosed_def writeClosed_def


subsection \<open>The sink's contract\<close>

lemma vCloseWrite_flags:
  "v_writer (vCloseWrite now v)" "v_sunk (vCloseWrite now v) = v_sunk v"
  by (simp_all add: view_defs)

lemma sink_first:
  assumes "\<not> sinkSunk (streams w s)"
  shows "sink s now src None w =
           (if throws src then Inl SourceFailed else Inr (),
            closeWrite s now
              ((setSinkSunk s w)\<lparr>trace := trace w @ map (WriterWrite (native (streams w s)))
                                                    (concat (map chunkBufs (yields src)))\<rparr>))"
  using assms by (simp add: sink_def writeChunks_all setSinkSunk_def)

lemma sink_closes_write:
  assumes "\<not> sinkSunk (streams w s)"
  shows "writerClosed (streams (snd (sink s now src budget w)) s)
       \<and> sinkSunk (streams (snd (sink s now src budget w)) s)"
proof -
  have "obs s (snd (sink s now src budget w)) = vCloseWrite now ((obs s w)\<lparr>v_sunk := True\<rparr>)"
    using assms by (simp add: obs_sink_own obs_fields [symmetric])
  then have "v_writer (obs s (snd (sink s now src budget w)))
           \<and> v_sunk (obs s (snd (sink s now src budget w)))"
    by (simp add: vCloseWrite_flags)
  then show ?thesis
    by (simp add: obs_def)
qed

text \<open>
  C5. The first \<^verbatim>\<open>sink\<close> of a stream, when no write rejects, writes every buffer of every
  chunk of its source in order, reports the source's failure if it threw, and ends with
  \<^verbatim>\<open>closeWrite\<close>; whatever happens during it (the source completes, the source throws, a
  write rejects), the write half is closed afterwards. A second \<^verbatim>\<open>sink\<close> on the same stream
  fails with the error for a repeated call and changes nothing: it writes nothing.
\<close>

theorem sink_contract:
  assumes "\<not> sinkSunk (streams w s)"
  shows "sink s now src None w =
           (if throws src then Inl SourceFailed else Inr (),
            closeWrite s now
              ((setSinkSunk s w)\<lparr>trace := trace w @ map (WriterWrite (native (streams w s)))
                                                    (concat (map chunkBufs (yields src)))\<rparr>))
       \<and> writerClosed (streams (snd (sink s now src budget w)) s)
       \<and> sink s now' src' budget' (snd (sink s now src budget w))
           = (Inl SinkAlreadyCalled, snd (sink s now src budget w))"
proof -
  have "sinkSunk (streams (snd (sink s now src budget w)) s)"
    using sink_closes_write [OF assms] by simp
  then have "sink s now' src' budget' (snd (sink s now src budget w))
           = (Inl SinkAlreadyCalled, snd (sink s now src budget w))"
    by (simp add: sink_def)
  with sink_first [OF assms] sink_closes_write [OF assms] show ?thesis
    by simp
qed

theorem sink_contract_witness:
  "\<not> sinkSunk (streams oneStream 0)
   \<and> fst (sink 0 2 \<lparr>yields = [Uint8Array [0], Uint8ArrayList [[1, 2], [3]]], throws = True\<rparr> None oneStream)
       = Inl SourceFailed
   \<and> trace (snd (sink 0 2 \<lparr>yields = [Uint8Array [0], Uint8ArrayList [[1, 2], [3]]], throws = True\<rparr>
                    None oneStream))
       = [WriterWrite 7 [0], WriterWrite 7 [1, 2], WriterWrite 7 [3], WriterClose 7]
   \<and> writerClosed (streams (snd (sink 0 2 \<lparr>yields = [Uint8Array [0], Uint8ArrayList [[1, 2], [3]]],
                                            throws = True\<rparr> None oneStream)) 0)
   \<and> sink 0 3 \<lparr>yields = [Uint8Array [9]], throws = False\<rparr> None
        (snd (sink 0 2 \<lparr>yields = [Uint8Array [0], Uint8ArrayList [[1, 2], [3]]], throws = True\<rparr>
                None oneStream))
       = (Inl SinkAlreadyCalled,
          snd (sink 0 2 \<lparr>yields = [Uint8Array [0], Uint8ArrayList [[1, 2], [3]]], throws = True\<rparr>
                  None oneStream))"
proof -
  let ?src = "\<lparr>yields = [Uint8Array [0], Uint8ArrayList [[1, 2], [3]]], throws = True\<rparr>"
  have fresh: "\<not> sinkSunk (streams oneStream 0)"
    by (simp add: world_eval)
  note contract = sink_contract [OF fresh, of 2 ?src None 3
                    "\<lparr>yields = [Uint8Array [9]], throws = False\<rparr>" None]
  have first: "sink 0 2 ?src None oneStream =
           (Inl SourceFailed,
            closeWrite 0 2
              ((setSinkSunk 0 oneStream)\<lparr>trace := trace oneStream @ map (WriterWrite (native (streams oneStream 0)))
                                                    (concat (map chunkBufs (yields ?src)))\<rparr>))"
    using contract by simp
  have written: "trace (snd (sink 0 2 ?src None oneStream))
       = [WriterWrite 7 [0], WriterWrite 7 [1, 2], WriterWrite 7 [3], WriterClose 7]"
    unfolding first by (simp add: world_eval chunkBufs_def setSinkSunk_def)
  have failed: "fst (sink 0 2 ?src None oneStream) = Inl SourceFailed"
    unfolding first by simp
  from contract have closed: "writerClosed (streams (snd (sink 0 2 ?src None oneStream)) 0)"
    by (rule conjunct2 [THEN conjunct1])
  from contract have again: "sink 0 3 \<lparr>yields = [Uint8Array [9]], throws = False\<rparr> None
        (snd (sink 0 2 ?src None oneStream))
       = (Inl SinkAlreadyCalled, snd (sink 0 2 ?src None oneStream))"
    by (rule conjunct2 [THEN conjunct2])
  show ?thesis
    by (intro conjI fresh failed written closed again)
qed

subsection \<open>Inbound admission\<close>

lemma inboundRead_ready_running:
  "loopRunning w \<Longrightarrow> loopRunning (inboundRead N now (ReadStream h True) w)"
  by (simp add: inboundRead_def emit_def webtransportBiDiStreamToStream_def Let_def)

lemma inboundRead_ready_length:
  "loopRunning w \<Longrightarrow>
   length (activeStreams (inboundRead N now (ReadStream h True) w))
   = (if int (length (activeStreams w)) \<ge> N then length (activeStreams w)
      else Suc (length (activeStreams w)))"
  by (simp add: inboundRead_def emit_def webtransportBiDiStreamToStream_def Let_def)

text \<open>
  Admission up to the ceiling: while the loop runs, native streams that arrive one after the
  other (each with a writer that becomes ready, nothing closing in between) are admitted
  until the active array holds \<open>N\<close> streams, and no further: from a count below \<open>N\<close>, the
  count afterwards is the smaller of \<open>N\<close> and the old count plus the number of arrivals.
\<close>

theorem admission_fills_to_ceiling:
  "loopRunning w \<Longrightarrow>
   length (activeStreams (foldl (\<lambda>w h. inboundRead N now (ReadStream h True) w) w hs))
   = (if int (length (activeStreams w)) \<ge> N then length (activeStreams w)
      else min (length (activeStreams w) + length hs) (nat N))"
proof (induction hs arbitrary: w)
  case Nil
  then show ?case by auto
next
  case (Cons h hs)
  let ?w = "inboundRead N now (ReadStream h True) w"
  have run: "loopRunning ?w"
    using Cons.prems by (rule inboundRead_ready_running)
  have len: "length (activeStreams ?w)
             = (if int (length (activeStreams w)) \<ge> N then length (activeStreams w)
                else Suc (length (activeStreams w)))"
    using Cons.prems by (rule inboundRead_ready_length)
  show ?case
    using Cons.IH [OF run] len by auto
qed

theorem admission_fills_to_ceiling_witness:
  "loopRunning oneStream
   \<and> length (activeStreams (foldl (\<lambda>w h. inboundRead 3 9 (ReadStream h True) w) oneStream
                                    [10, 11, 12, 13])) = 3"
proof -
  have running: "loopRunning oneStream"
    by (simp add: world_eval)
  from admission_fills_to_ceiling [OF running, of 3 9 "[10, 11, 12, 13]"] running
  show ?thesis
    by (simp add: world_eval)
qed

text \<open>
  C4. While the draining loop runs, a native stream that arrives when the active array
  (inbound and outbound streams together) holds at least \<open>N\<close> streams gets its writable closed
  and its readable cancelled, and nothing else changes: it is not wrapped, not put on the
  array, not given to the callback. One that arrives below \<open>N\<close> (and whose writer becomes
  ready) is wrapped under the next number, appended to the array and given to the callback.
  So the array, the stream objects or the callback's calls change only when the count was
  below \<open>N\<close>, and a turn of the loop never takes the count above \<open>N\<close>.
\<close>

theorem inbound_admission:
  assumes "loopRunning w"
  shows "(int (length (activeStreams w)) \<ge> N \<longrightarrow>
            inboundRead N now (ReadStream h ready) w
            = w\<lparr>trace := trace w @ [WritableClose h, ReadableCancel h]\<rparr>)
       \<and> (int (length (activeStreams w)) < N \<and> ready \<longrightarrow>
            inboundRead N now (ReadStream h ready) w
            = w\<lparr>activeStreams := activeStreams w @ [streamIDCounter w],
                 streamIDCounter := Suc (streamIDCounter w),
                 streams := (streams w)(streamIDCounter w :=
                    \<lparr>native = h, direction = Inbound, writerClosed = False, readerClosed = False,
                     sinkSunk = False, timeline_open = now, timeline_close = None\<rparr>),
                 trace := trace w @ [OnIncomingStream (streamIDCounter w)]\<rparr>)
       \<and> (activeStreams (inboundRead N now (ReadStream h ready) w) \<noteq> activeStreams w
            \<or> (\<exists>i. OnIncomingStream i \<in> set (trace (inboundRead N now (ReadStream h ready) w))
                    \<and> OnIncomingStream i \<notin> set (trace w))
            \<or> streams (inboundRead N now (ReadStream h ready) w) \<noteq> streams w
          \<longrightarrow> int (length (activeStreams w)) < N)
       \<and> (int (length (activeStreams w)) \<le> N \<longrightarrow>
            int (length (activeStreams (inboundRead N now r w))) \<le> N)"
proof -
  have full: "int (length (activeStreams w)) \<ge> N \<longrightarrow>
            inboundRead N now (ReadStream h ready) w
            = w\<lparr>trace := trace w @ [WritableClose h, ReadableCancel h]\<rparr>"
    using assms by (simp add: inboundRead_def emit_def)
  have room: "int (length (activeStreams w)) < N \<and> ready \<longrightarrow>
            inboundRead N now (ReadStream h ready) w
            = w\<lparr>activeStreams := activeStreams w @ [streamIDCounter w],
                 streamIDCounter := Suc (streamIDCounter w),
                 streams := (streams w)(streamIDCounter w :=
                    \<lparr>native = h, direction = Inbound, writerClosed = False, readerClosed = False,
                     sinkSunk = False, timeline_open = now, timeline_close = None\<rparr>),
                 trace := trace w @ [OnIncomingStream (streamIDCounter w)]\<rparr>"
    using assms by (simp add: inboundRead_def emit_def webtransportBiDiStreamToStream_def Let_def)
  have only: "activeStreams (inboundRead N now (ReadStream h ready) w) \<noteq> activeStreams w
            \<or> (\<exists>i. OnIncomingStream i \<in> set (trace (inboundRead N now (ReadStream h ready) w))
                    \<and> OnIncomingStream i \<notin> set (trace w))
            \<or> streams (inboundRead N now (ReadStream h ready) w) \<noteq> streams w
          \<longrightarrow> int (length (activeStreams w)) < N"
  proof (cases "int (length (activeStreams w)) < N")
    case True
    then show ?thesis by simp
  next
    case False
    with full have "inboundRead N now (ReadStream h ready) w
            = w\<lparr>trace := trace w @ [WritableClose h, ReadableCancel h]\<rparr>"
      by simp
    then show ?thesis by auto
  qed
  have bound: "int (length (activeStreams w)) \<le> N \<longrightarrow>
            int (length (activeStreams (inboundRead N now r w))) \<le> N"
    by (cases r)
       (auto simp: inboundRead_def emit_def webtransportBiDiStreamToStream_def Let_def)
  show ?thesis
    by (intro conjI full room only bound)
qed


theorem inbound_admission_witness:
  "loopRunning oneStream
   \<and> inboundRead 1 2 (ReadStream 8 True) oneStream
       = oneStream\<lparr>trace := [WritableClose 8, ReadableCancel 8]\<rparr>
   \<and> activeStreams (inboundRead 2 2 (ReadStream 8 True) oneStream) = [0, 1]
   \<and> trace (inboundRead 2 2 (ReadStream 8 True) oneStream) = [OnIncomingStream 1]
   \<and> inboundRead 2 3 (ReadStream 9 True) (inboundRead 2 2 (ReadStream 8 True) oneStream)
       = (inboundRead 2 2 (ReadStream 8 True) oneStream)
           \<lparr>trace := [OnIncomingStream 1, WritableClose 9, ReadableCancel 9]\<rparr>"
proof -
  have running: "loopRunning oneStream"
    by (simp add: world_eval)
  have running2: "loopRunning (inboundRead 2 2 (ReadStream 8 True) oneStream)"
    by (simp add: world_eval inboundRead_def)
  from inbound_admission [OF running, of 1 2 8 True]
       inbound_admission [OF running, of 2 2 8 True]
       inbound_admission [OF running2, of 2 3 9 True] running
  show ?thesis
    by (simp add: world_eval)
qed

end
